theory Spec2Isabelle
  imports Complex_Main "HOL-Library.Char_ord" "HOL-Library.List_Lexorder" "HOL-Library.Multiset"
begin

section \<open>Regular expressions as the tools use them\<close>

text \<open>
  Every tool of the server works on the raw text of the uiautomator dump with a regular
  expression. The patterns of the tools use a small part of the RegExp language only:
  literal characters, the classes \<^verbatim>\<open>.\<close>, \<^verbatim>\<open>[^c]\<close> and \<^verbatim>\<open>\d\<close>, the
  quantifiers \<^verbatim>\<open>*\<close>, \<^verbatim>\<open>*?\<close> and \<^verbatim>\<open>+\<close> on a class, capture groups and the optional
  non-capturing group. A pattern is the list of its terms; \<open>Open g\<close> and \<open>Close g\<close> are the
  parentheses of capture group \<open>g\<close>.

  Strings are lists of \<^typ>\<open>char\<close>: the model covers dumps and queries whose UTF-16 code
  units are below 256.
\<close>

datatype cclass = AnyChar | NotChar char | Digit

fun cmatch :: "cclass \<Rightarrow> char \<Rightarrow> bool" where
  "cmatch AnyChar c = (c \<noteq> CHR 0x0A \<and> c \<noteq> CHR 0x0D)"
| "cmatch (NotChar d) c = (c \<noteq> d)"
| "cmatch Digit c = (48 \<le> (of_char c :: nat) \<and> (of_char c :: nat) \<le> 57)"

datatype atom =
    Lit char
  | One cclass
  | Star cclass
  | LazyStar cclass
  | Plus cclass
  | Open nat
  | Close nat
  | Opt "atom list"

text \<open>
  Canonicalize of the RegExp semantics under the \<^verbatim>\<open>i\<close> flag (no \<^verbatim>\<open>u\<close> flag): the
  upper-case mapping of a single code unit. Below 256 it moves \<^verbatim>\<open>a-z\<close> and the Latin-1
  letters \<^verbatim>\<open>0xE0-0xFE\<close> (but not the division sign \<^verbatim>\<open>0xF7\<close>) down by 32; the
  code units whose upper case lies outside the range stay distinct from all others and are
  left in place.
\<close>

definition canonicalize :: "char \<Rightarrow> char" where
  "canonicalize c =
     (let n = (of_char c :: nat)
      in if (97 \<le> n \<and> n \<le> 122) \<or> (224 \<le> n \<and> n \<le> 254 \<and> n \<noteq> 247)
         then char_of (n - 32) else c)"

definition ceq :: "bool \<Rightarrow> char \<Rightarrow> char \<Rightarrow> bool" where
  "ceq ic c x = (if ic then canonicalize c = canonicalize x else c = x)"

text \<open>
  The state of one match attempt: \<open>caps g\<close> is the text captured by group \<open>g\<close>
  (\<open>None\<close> is JavaScript's \<^verbatim>\<open>undefined\<close>), \<open>marks g\<close> the input that was left when
  group \<open>g\<close> was entered.
\<close>

record mstate =
  caps :: "nat \<Rightarrow> string option"
  marks :: "nat \<Rightarrow> string option"

definition init :: mstate where
  "init = \<lparr>caps = (\<lambda>_. None), marks = (\<lambda>_. None)\<rparr>"

definition open_group :: "nat \<Rightarrow> string \<Rightarrow> mstate \<Rightarrow> mstate" where
  "open_group g s st = st\<lparr>marks := (marks st)(g := Some s)\<rparr>"

definition close_group :: "nat \<Rightarrow> string \<Rightarrow> mstate \<Rightarrow> mstate" where
  "close_group g s st =
     (case marks st g of
        None \<Rightarrow> st
      | Some s0 \<Rightarrow> st\<lparr>caps := (caps st)(g := Some (take (length s0 - length s) s0))\<rparr>)"

text \<open>
  The backtracking matcher: \<open>m ic p s st\<close> matches pattern \<open>p\<close> at the start of \<open>s\<close>
  and returns the state and the input left after the first match in the order in which a
  backtracking engine tries the alternatives: a greedy quantifier takes one more character
  before it tries the rest of the pattern, a lazy one tries the rest first.
\<close>

function m :: "bool \<Rightarrow> atom list \<Rightarrow> string \<Rightarrow> mstate \<Rightarrow> (mstate \<times> string) option" where
  "m ic [] s st = Some (st, s)"
| "m ic (Lit c # r) [] st = None"
| "m ic (Lit c # r) (x # xs) st = (if ceq ic c x then m ic r xs st else None)"
| "m ic (One k # r) [] st = None"
| "m ic (One k # r) (x # xs) st = (if cmatch k x then m ic r xs st else None)"
| "m ic (Star k # r) [] st = m ic r [] st"
| "m ic (Star k # r) (x # xs) st =
     (if cmatch k x
      then (case m ic (Star k # r) xs st of
              Some res \<Rightarrow> Some res
            | None \<Rightarrow> m ic r (x # xs) st)
      else m ic r (x # xs) st)"
| "m ic (LazyStar k # r) [] st = m ic r [] st"
| "m ic (LazyStar k # r) (x # xs) st =
     (case m ic r (x # xs) st of
        Some res \<Rightarrow> Some res
      | None \<Rightarrow> if cmatch k x then m ic (LazyStar k # r) xs st else None)"
| "m ic (Plus k # r) [] st = None"
| "m ic (Plus k # r) (x # xs) st = (if cmatch k x then m ic (Star k # r) xs st else None)"
| "m ic (Open g # r) s st = m ic r s (open_group g s st)"
| "m ic (Close g # r) s st = m ic r s (close_group g s st)"
| "m ic (Opt b # r) s st =
     (case m ic (b @ r) s st of
        Some res \<Rightarrow> Some res
      | None \<Rightarrow> m ic r s st)"
  by pat_completeness auto
termination
  by (relation "measures [\<lambda>(ic, p, s, st). size_list size p, \<lambda>(ic, p, s, st). length s]") auto

text \<open>
  \<^verbatim>\<open>regex.exec\<close> looks for the leftmost position at which the pattern matches.
\<close>

fun search :: "bool \<Rightarrow> atom list \<Rightarrow> string \<Rightarrow> (mstate \<times> string) option" where
  "search ic p [] = m ic p [] init"
| "search ic p (x # xs) =
     (case m ic p (x # xs) init of
        Some res \<Rightarrow> Some res
      | None \<Rightarrow> search ic p xs)"

text \<open>
  The loop \<^verbatim>\<open>while ((match = regex.exec(xml)) !== null)\<close> of a RegExp with the \<^verbatim>\<open>g\<close>
  flag: each call resumes where the last match ended. A match that consumes nothing leaves
  \<^verbatim>\<open>lastIndex\<close> in place, and the loop never ends: that is the result \<open>None\<close>.
\<close>

function exec_all :: "bool \<Rightarrow> atom list \<Rightarrow> string \<Rightarrow> mstate list option" where
  "exec_all ic p s =
     (case search ic p s of
        None \<Rightarrow> Some []
      | Some (st, rest) \<Rightarrow>
          if length rest < length s
          then (case exec_all ic p rest of None \<Rightarrow> None | Some ms \<Rightarrow> Some (st # ms))
          else None)"
  by pat_completeness auto
termination
  by (relation "measure (\<lambda>(ic, p, s). length s)") auto

declare exec_all.simps [simp del]


section \<open>Building the patterns\<close>

definition lits :: "string \<Rightarrow> atom list" where
  "lits s = map Lit s"

text \<open>
  The tail shared by the patterns of all tools:
  \<^verbatim>\<open>bounds="\[(\d+),(\d+)\]\[(\d+),(\d+)\]"\<close>, where \<open>g\<close> is the number of the
  first of its four groups.
\<close>

definition bounds_atoms_from :: "nat \<Rightarrow> atom list" where
  "bounds_atoms_from g =
     lits ''bounds=\"['' @ [Open g, Plus Digit, Close g, Lit (CHR '','')] @
     [Open (g + 1), Plus Digit, Close (g + 1)] @ lits ''][''  @
     [Open (g + 2), Plus Digit, Close (g + 2), Lit (CHR '','')] @
     [Open (g + 3), Plus Digit, Close (g + 3)] @ lits '']\"''"

text \<open>
  \<^verbatim>\<open>text.replace(/[.*+?^${}()|[\]\\]/g, "\\$&")\<close>: a backslash in front of each
  syntax character of the query text.
\<close>

definition syntax_char :: "char \<Rightarrow> bool" where
  "syntax_char c = (c \<in> set (''.*+?^${}()|[]'' @ [CHR 0x5C]))"

fun escapeRegExp :: "string \<Rightarrow> string" where
  "escapeRegExp [] = []"
| "escapeRegExp (c # cs) =
     (if syntax_char c then CHR 0x5C # c # escapeRegExp cs else c # escapeRegExp cs)"

text \<open>
  What \<^verbatim>\<open>new RegExp\<close> makes of the text that a tool splices into its pattern. A
  character that is no syntax character stands for itself, a backslash in front of a syntax
  character makes it a literal, and a dot matches any character but a line end. A spliced
  text that uses any other pattern syntax (quantifiers, groups, classes, alternation,
  anchors, other escapes) is beyond this model: \<open>None\<close>.
\<close>

fun pattern_fragment :: "string \<Rightarrow> atom list option" where
  "pattern_fragment [] = Some []"
| "pattern_fragment (c # cs) =
     (if c = CHR 0x5C then
        (case cs of
           [] \<Rightarrow> None
         | d # ds \<Rightarrow>
             if syntax_char d then map_option (Cons (Lit d)) (pattern_fragment ds) else None)
      else if c = CHR ''.'' then map_option (Cons (One AnyChar)) (pattern_fragment cs)
      else if syntax_char c then None
      else map_option (Cons (Lit c)) (pattern_fragment cs))"

section \<open>Numbers\<close>

text \<open>
  A JavaScript number is a double. The numbers of the tools are integers: \<open>Num n\<close> is the
  double whose value is the integer \<open>n\<close>, \<open>NaN\<close> is \<^verbatim>\<open>NaN\<close>, and \<open>Beyond\<close> is a number
  that the model does not follow (see \<^verbatim>\<open>parseInt\<close> below).

  A double has 53 binary digits, so not every integer is one, and the result of an
  operation is the double nearest to the exact result. \<open>nearest n\<close> is the double nearest
  to an integer \<open>n \<ge> 0\<close>: it keeps the leading 53 binary digits of \<open>n\<close> and rounds the
  rest to the nearest, a tie to the even one; \<open>exponent n\<close> is the number of binary digits
  that are rounded away. Every integer up to \<open>2 ^ 53\<close> is a double. (All numbers of the
  tools are below \<open>2 * 10 ^ 20\<close>, far from the largest double.)
\<close>

datatype number = Num int | NaN | Beyond

function exponent :: "int \<Rightarrow> nat" where
  "exponent n = (if n < 2 ^ 53 then 0 else Suc (exponent (n div 2)))"
  by pat_completeness auto
termination by (relation "measure nat") auto

declare exponent.simps [simp del]

definition nearest :: "int \<Rightarrow> int" where
  "nearest n =
     (let e = exponent n; q = n div 2 ^ e; r = n mod 2 ^ e
      in if 2 ^ e < 2 * r \<or> (2 * r = 2 ^ e \<and> odd q) then (q + 1) * 2 ^ e else q * 2 ^ e)"

definition double :: "int \<Rightarrow> int" where
  "double z = (if z < 0 then - nearest (- z) else nearest z)"

text \<open>
  \<^verbatim>\<open>parseInt\<close> reads the longest prefix of decimal digits and gives \<^verbatim>\<open>NaN\<close> when there is
  none, as for \<^verbatim>\<open>undefined\<close>. (The sign, the leading white space and the \<^verbatim>\<open>0x\<close> prefix
  that \<^verbatim>\<open>parseInt\<close> accepts as well cannot occur in the text captured by \<^verbatim>\<open>(\d+)\<close>.)
  The number is the double nearest to the value of the digits. From \<open>10 ^ 20\<close> on, which
  takes more than 20 significant digits, the language lets an implementation read the
  digits after the twentieth as zeros; the result is \<open>Beyond\<close> then, a number that the model
  does not follow.
\<close>

definition digit_val :: "char \<Rightarrow> int" where
  "digit_val c = int (of_char c - 48)"

definition decimal :: "string \<Rightarrow> int" where
  "decimal s = foldl (\<lambda>a c. 10 * a + digit_val c) 0 s"

definition decimal_number :: "int \<Rightarrow> number" where
  "decimal_number n = (if n < 10 ^ 20 then Num (double n) else Beyond)"

definition parseInt :: "string option \<Rightarrow> number" where
  "parseInt v =
     (case v of
        None \<Rightarrow> NaN
      | Some s \<Rightarrow>
          (let ds = takeWhile (cmatch Digit) s
           in if ds = [] then NaN else decimal_number (decimal ds)))"

text \<open>
  \<^verbatim>\<open>a - b\<close> is the double nearest to the difference, and \<^verbatim>\<open>NaN\<close> when one of the two is
  \<^verbatim>\<open>NaN\<close>; it is not followed when one of the two is not.
\<close>

definition js_sub :: "number \<Rightarrow> number \<Rightarrow> number" where
  "js_sub a b =
     (case (a, b) of
        (Num x, Num y) \<Rightarrow> Num (double (x - y))
      | (NaN, _) \<Rightarrow> NaN
      | (_, NaN) \<Rightarrow> NaN
      | _ \<Rightarrow> Beyond)"

text \<open>\<^verbatim>\<open>Math.round\<close> rounds to the nearest integer, a half upwards.\<close>

definition Math_round :: "rat \<Rightarrow> int" where
  "Math_round q = \<lfloor>q + 1 / 2\<rfloor>"

text \<open>
  \<^verbatim>\<open>Math.round((a + b) / 2)\<close>: the sum is the double nearest to the exact sum; the half
  of it is a double again, and so is the rounded half.
\<close>

definition center_of :: "number \<Rightarrow> number \<Rightarrow> number" where
  "center_of a b =
     (case (a, b) of
        (Num x, Num y) \<Rightarrow> Num (Math_round (of_int (double (x + y)) / 2))
      | (NaN, _) \<Rightarrow> NaN
      | (_, NaN) \<Rightarrow> NaN
      | _ \<Rightarrow> Beyond)"

section \<open>Results of a tool\<close>

text \<open>
  A tool returns its response, or it throws, or its loop never ends, or its pattern is
  beyond the model (see \<^const>\<open>pattern_fragment\<close>).
\<close>

datatype js_error = TypeError

datatype 'a outcome = Returns 'a | Throws js_error | Hangs | Unmodelled

text \<open>A string parameter is falsy when it is missing or empty.\<close>

definition truthy :: "string option \<Rightarrow> bool" where
  "truthy v = (case v of None \<Rightarrow> False | Some s \<Rightarrow> s \<noteq> [])"

text \<open>The entry \<^verbatim>\<open>{x1, y1, x2, y2}\<close> pushed for each match.\<close>

record rect =
  x1 :: number
  y1 :: number
  x2 :: number
  y2 :: number

definition rect_of :: "mstate \<Rightarrow> rect" where
  "rect_of st =
     \<lparr>x1 = parseInt (caps st 1), y1 = parseInt (caps st 2),
      x2 = parseInt (caps st 3), y2 = parseInt (caps st 4)\<rparr>"

text \<open>
  \<^verbatim>\<open>matches[index]\<close>: an array has an entry at the indices \<open>0 \<le> i < length\<close> only;
  anywhere else the read gives \<^verbatim>\<open>undefined\<close>.
\<close>

definition js_nth :: "'a list \<Rightarrow> int \<Rightarrow> 'a option" where
  "js_nth xs i = (if 0 \<le> i \<and> i < int (length xs) then Some (xs ! nat i) else None)"


text \<open>A template literal prints a missing value as \<^verbatim>\<open>undefined\<close>.\<close>

definition interpolate :: "string option \<Rightarrow> string" where
  "interpolate v = (case v of None \<Rightarrow> ''undefined'' | Some s \<Rightarrow> s)"

section \<open>get_element_bounds\<close>

record found =
  matchCount :: nat
  index :: int
  bounds_x :: number
  bounds_y :: number
  bounds_width :: number
  bounds_height :: number
  center_x :: number
  center_y :: number

text \<open>
  The four JSON responses of the tool: \<^verbatim>\<open>{error: "Must provide text or resourceId"}\<close>,
  \<^verbatim>\<open>{found: false, error: "Element not found"}\<close>,
  \<^verbatim>\<open>{found: false, error: "Index i out of range. Found n matches."}\<close> and the result
  with \<^verbatim>\<open>found: true\<close>.
\<close>

datatype bounds_response =
    Must_provide
  | Element_not_found
  | Index_out_of_range int nat
  | Found found

text \<open>
  With a text: \<^verbatim>\<open>text="[^"]*${escapedText}[^"]*".*?\<close> and the bounds; otherwise
  \<^verbatim>\<open>resource-id="${resourceId}".*?\<close> and the bounds.
\<close>

definition get_element_bounds_pattern :: "string option \<Rightarrow> string option \<Rightarrow> atom list option" where
  "get_element_bounds_pattern text resourceId =
     (if truthy text then
        map_option
          (\<lambda>q. lits ''text=\"'' @ [Star (NotChar (CHR 0x22))] @ q @
                [Star (NotChar (CHR 0x22)), Lit (CHR 0x22), LazyStar AnyChar] @ bounds_atoms_from 1)
          (pattern_fragment (escapeRegExp (interpolate text)))
      else
        map_option
          (\<lambda>q. lits ''resource-id=\"'' @ q @ [Lit (CHR 0x22), LazyStar AnyChar] @ bounds_atoms_from 1)
          (pattern_fragment (interpolate resourceId)))"

definition found_of :: "rect list \<Rightarrow> int \<Rightarrow> rect \<Rightarrow> found" where
  "found_of matches i mt =
     \<lparr>matchCount = length matches, index = i,
      bounds_x = x1 mt, bounds_y = y1 mt,
      bounds_width = js_sub (x2 mt) (x1 mt), bounds_height = js_sub (y2 mt) (y1 mt),
      center_x = center_of (x1 mt) (x2 mt), center_y = center_of (y1 mt) (y2 mt)\<rparr>"

text \<open>
  The arguments are the dump that \<^verbatim>\<open>cat /sdcard/ui_dump.xml\<close> returned and the
  parameters of the call, \<open>i\<close> being \<^verbatim>\<open>index\<close> (0 when the caller leaves it out).
  Reading a field of \<^verbatim>\<open>matches[index]\<close> throws a TypeError when there is no such
  entry.
\<close>

definition get_element_bounds_matches ::
    "string \<Rightarrow> string option \<Rightarrow> string option \<Rightarrow> rect list outcome" where
  "get_element_bounds_matches xml text resourceId =
     (case get_element_bounds_pattern text resourceId of
        None \<Rightarrow> Unmodelled
      | Some p \<Rightarrow>
          (case exec_all True p xml of
             None \<Rightarrow> Hangs
           | Some sts \<Rightarrow> Returns (map rect_of sts)))"

definition get_element_bounds ::
    "string \<Rightarrow> string option \<Rightarrow> string option \<Rightarrow> int \<Rightarrow> bounds_response outcome" where
  "get_element_bounds xml text resourceId i =
     (if \<not> truthy text \<and> \<not> truthy resourceId then Returns Must_provide
      else case get_element_bounds_matches xml text resourceId of
        Returns matches \<Rightarrow>
          (if length matches = 0 then Returns Element_not_found
           else if i \<ge> int (length matches)
           then Returns (Index_out_of_range i (length matches))
           else (case js_nth matches i of
                   None \<Rightarrow> Throws TypeError
                 | Some mt \<Rightarrow> Returns (Found (found_of matches i mt))))
      | Throws e \<Rightarrow> Throws e
      | Hangs \<Rightarrow> Hangs
      | Unmodelled \<Rightarrow> Unmodelled)"

section \<open>tap_element\<close>

datatype search_type =
    By_resource_id string
  | By_text string
  | By_text_containing string

text \<open>
  The responses: \<^verbatim>\<open>Error: Must provide either text or resourceId\<close>,
  \<^verbatim>\<open>Element with ... not found\<close>, \<^verbatim>\<open>Index i out of range. Found n matches for ...\<close>
  and \<^verbatim>\<open>Tapped element with ... at (x, y)\<close>, which follows the command
  \<^verbatim>\<open>input tap x y\<close> and ends in \<^verbatim>\<open>[match i+1/n]\<close> when there are several matches.
\<close>

datatype tap_response =
    Must_provide_either
  | Not_found search_type
  | Out_of_range int nat search_type
  | Tapped search_type number number "(int \<times> nat) option"

text \<open>
  The resource id comes first: \<^verbatim>\<open>resource-id="${resourceId}"[^>]*\<close>; then the exact
  text: \<^verbatim>\<open>text="${escapedText}"[^>]*\<close>; then the contained text:
  \<^verbatim>\<open>text="[^"]*${escapedText}[^"]*"[^>]*\<close>; each followed by the bounds. Without a
  resource id, \<^verbatim>\<open>text!.replace\<close> throws when the text is \<^verbatim>\<open>undefined\<close>.
\<close>

definition tap_element_pattern ::
    "string option \<Rightarrow> string option \<Rightarrow> bool \<Rightarrow> atom list outcome" where
  "tap_element_pattern text resourceId exact =
     (if truthy resourceId then
        (case pattern_fragment (interpolate resourceId) of
           None \<Rightarrow> Unmodelled
         | Some q \<Rightarrow>
             Returns (lits ''resource-id=\"'' @ q @
                      [Lit (CHR 0x22), Star (NotChar (CHR ''>''))] @ bounds_atoms_from 1))
      else
        (case text of
           None \<Rightarrow> Throws TypeError
         | Some t \<Rightarrow>
             (case pattern_fragment (escapeRegExp t) of
                None \<Rightarrow> Unmodelled
              | Some q \<Rightarrow>
                  if exact then
                    Returns (lits ''text=\"'' @ q @
                             [Lit (CHR 0x22), Star (NotChar (CHR ''>''))] @ bounds_atoms_from 1)
                  else
                    Returns (lits ''text=\"'' @ [Star (NotChar (CHR 0x22))] @ q @
                             [Star (NotChar (CHR 0x22)), Lit (CHR 0x22),
                              Star (NotChar (CHR ''>''))] @ bounds_atoms_from 1))))"

definition tap_element_searchType ::
    "string option \<Rightarrow> string option \<Rightarrow> bool \<Rightarrow> search_type" where
  "tap_element_searchType text resourceId exact =
     (if truthy resourceId then By_resource_id (interpolate resourceId)
      else if exact then By_text (interpolate text)
      else By_text_containing (interpolate text))"

definition tap_element_matches ::
    "string \<Rightarrow> string option \<Rightarrow> string option \<Rightarrow> bool \<Rightarrow> rect list outcome" where
  "tap_element_matches xml text resourceId exact =
     (case tap_element_pattern text resourceId exact of
        Returns p \<Rightarrow>
          (case exec_all True p xml of
             None \<Rightarrow> Hangs
           | Some sts \<Rightarrow> Returns (map rect_of sts))
      | Throws e \<Rightarrow> Throws e
      | Hangs \<Rightarrow> Hangs
      | Unmodelled \<Rightarrow> Unmodelled)"

definition tapped :: "search_type \<Rightarrow> rect list \<Rightarrow> int \<Rightarrow> rect \<Rightarrow> tap_response" where
  "tapped searchType matches i mt =
     Tapped searchType (center_of (x1 mt) (x2 mt)) (center_of (y1 mt) (y2 mt))
       (if length matches > 1 then Some (i + 1, length matches) else None)"

definition tap_element ::
    "string \<Rightarrow> string option \<Rightarrow> string option \<Rightarrow> int \<Rightarrow> bool \<Rightarrow> tap_response outcome" where
  "tap_element xml text resourceId i exact =
     (if \<not> truthy text \<and> \<not> truthy resourceId then Returns Must_provide_either
      else case tap_element_matches xml text resourceId exact of
        Returns matches \<Rightarrow>
          (let searchType = tap_element_searchType text resourceId exact
           in if length matches = 0 then Returns (Not_found searchType)
              else if i \<ge> int (length matches)
              then Returns (Out_of_range i (length matches) searchType)
              else (case js_nth matches i of
                      None \<Rightarrow> Throws TypeError
                    | Some mt \<Rightarrow> Returns (tapped searchType matches i mt)))
      | Throws e \<Rightarrow> Throws e
      | Hangs \<Rightarrow> Hangs
      | Unmodelled \<Rightarrow> Unmodelled)"

section \<open>is_element_visible\<close>

record visible_bounds =
  vb_x :: number
  vb_y :: number
  vb_width :: number
  vb_height :: number
  vb_centerX :: number
  vb_centerY :: number

text \<open>
  \<^verbatim>\<open>{visible: false, error: "Must provide text or resourceId"}\<close> or
  \<^verbatim>\<open>{visible: found, bounds}\<close>, where \<^verbatim>\<open>bounds\<close> is \<^verbatim>\<open>null\<close> when nothing is found.
\<close>

datatype visible_response =
    Visible_must_provide
  | Visible bool "visible_bounds option"

definition visible_bounds_of :: "mstate \<Rightarrow> visible_bounds" where
  "visible_bounds_of st =
     (let r = rect_of st
      in \<lparr>vb_x = x1 r, vb_y = y1 r,
          vb_width = js_sub (x2 r) (x1 r), vb_height = js_sub (y2 r) (y1 r),
          vb_centerX = center_of (x1 r) (x2 r), vb_centerY = center_of (y1 r) (y2 r)\<rparr>)"

definition is_element_visible_text :: "string \<Rightarrow> atom list option" where
  "is_element_visible_text text =
     map_option
       (\<lambda>q. lits ''text=\"'' @ [Star (NotChar (CHR 0x22))] @ q @
             [Star (NotChar (CHR 0x22)), Lit (CHR 0x22), LazyStar AnyChar] @ bounds_atoms_from 1)
        (pattern_fragment (escapeRegExp text))"

definition is_element_visible_id :: "string \<Rightarrow> atom list option" where
  "is_element_visible_id resourceId =
     map_option
       (\<lambda>q. lits ''resource-id=\"'' @ q @ [Lit (CHR 0x22), LazyStar AnyChar] @ bounds_atoms_from 1)
       (pattern_fragment resourceId)"

text \<open>
  The text is tried first, with one \<^verbatim>\<open>exec\<close> of a RegExp without the \<^verbatim>\<open>g\<close> flag;
  the resource id is tried only when the text has found nothing.
\<close>

definition is_element_visible ::
    "string \<Rightarrow> string option \<Rightarrow> string option \<Rightarrow> visible_response outcome" where
  "is_element_visible xml text resourceId =
     (if \<not> truthy text \<and> \<not> truthy resourceId then Returns Visible_must_provide
      else
        (let by_text =
               (if truthy text then
                  (case is_element_visible_text (interpolate text) of
                     None \<Rightarrow> None
                   | Some p \<Rightarrow> Some (map_option fst (search True p xml)))
                else Some None)
         in case by_text of
              None \<Rightarrow> Unmodelled
            | Some (Some st) \<Rightarrow>
                Returns (Visible True (Some (visible_bounds_of st)))
            | Some None \<Rightarrow>
                (if truthy resourceId then
                   (case is_element_visible_id (interpolate resourceId) of
                      None \<Rightarrow> Unmodelled
                    | Some p \<Rightarrow>
                        (case search True p xml of
                           None \<Rightarrow> Returns (Visible False None)
                         | Some (st, rest) \<Rightarrow>
                             Returns (Visible True (Some (visible_bounds_of st)))))
                 else Returns (Visible False None))))"

section \<open>get_all_text and get_ui_tree\<close>

text \<open>
  The pattern of \<^verbatim>\<open>get_all_text\<close>, with the \<^verbatim>\<open>g\<close> flag only:
  \<^verbatim>\<open>text="([^"]*)"[^>]*bounds="\[(\d+),(\d+)\]\[(\d+),(\d+)\]"\<close>.
  The text is group 1 and the four numbers are groups 2 to 5.
\<close>

definition get_all_text_regex :: "atom list" where
  "get_all_text_regex =
     lits ''text=\"'' @ [Open 1, Star (NotChar (CHR 0x22)), Close 1, Lit (CHR 0x22)] @
     [Star (NotChar (CHR ''>''))] @ bounds_atoms_from 2"

record text_entry =
  te_text :: string
  te_centerX :: number
  te_centerY :: number

definition text_entry_of :: "mstate \<Rightarrow> text_entry" where
  "text_entry_of st =
     \<lparr>te_text = (if truthy (caps st 1) then interpolate (caps st 1) else ''(empty)''),
      te_centerX = center_of (parseInt (caps st 2)) (parseInt (caps st 4)),
      te_centerY = center_of (parseInt (caps st 3)) (parseInt (caps st 5))\<rparr>"

text \<open>
  The array \<^verbatim>\<open>texts\<close> as the loop of \<^verbatim>\<open>get_all_text\<close> fills it, before the tool
  sorts it by position for its listing.
\<close>

definition get_all_text_texts :: "bool \<Rightarrow> string \<Rightarrow> text_entry list outcome" where
  "get_all_text_texts includeEmpty xml =
     (case exec_all False get_all_text_regex xml of
        None \<Rightarrow> Hangs
      | Some sts \<Rightarrow>
          Returns (map text_entry_of
                     (filter (\<lambda>st. truthy (caps st 1) \<or> includeEmpty) sts)))"

text \<open>
  The pattern of \<^verbatim>\<open>get_ui_tree\<close>:
  \<^verbatim>\<open>text="([^"]*)".*?bounds="\[(\d+),(\d+)\]\[(\d+),(\d+)\]"\<close>, and the entries
  \<^verbatim>\<open>"text" at (x, y)\<close> of its array \<^verbatim>\<open>elements\<close>, one for each match with a text.
\<close>

definition get_ui_tree_regex :: "atom list" where
  "get_ui_tree_regex =
     lits ''text=\"'' @ [Open 1, Star (NotChar (CHR 0x22)), Close 1, Lit (CHR 0x22)] @
     [LazyStar AnyChar] @ bounds_atoms_from 2"

definition get_ui_tree_elements :: "string \<Rightarrow> text_entry list outcome" where
  "get_ui_tree_elements xml =
     (case exec_all False get_ui_tree_regex xml of
        None \<Rightarrow> Hangs
      | Some sts \<Rightarrow>
          Returns (map text_entry_of (filter (\<lambda>st. truthy (caps st 1)) sts)))"

section \<open>extractUIFingerprint and wait_for_ui_stable\<close>

text \<open>
  \<^verbatim>\<open>(?:text="([^"]*)")?[^>]*(?:class="([^"]*)")?[^>]*bounds="\[(\d+),(\d+)\]\[(\d+),(\d+)\]"\<close>
\<close>

definition fingerprint_regex :: "atom list" where
  "fingerprint_regex =
     [Opt (lits ''text=\"'' @ [Open 1, Star (NotChar (CHR 0x22)), Close 1, Lit (CHR 0x22)]),
      Star (NotChar (CHR ''>'')),
      Opt (lits ''class=\"'' @ [Open 2, Star (NotChar (CHR 0x22)), Close 2, Lit (CHR 0x22)]),
      Star (NotChar (CHR ''>''))] @ bounds_atoms_from 3"

text \<open>
  \<^verbatim>\<open>`${text || ""}|${className || ""}|${x1},${y1},${x2},${y2}`\<close>, where the numbers are
  the captured digits as they stand.
\<close>

definition or_empty :: "string option \<Rightarrow> string" where
  "or_empty v = (if truthy v then interpolate v else [])"

definition fingerprint_record :: "mstate \<Rightarrow> string" where
  "fingerprint_record st =
     or_empty (caps st 1) @ ''|'' @ or_empty (caps st 2) @ ''|'' @
     interpolate (caps st 3) @ '','' @ interpolate (caps st 4) @ '','' @
     interpolate (caps st 5) @ '','' @ interpolate (caps st 6)"

text \<open>\<^verbatim>\<open>elements.join("\n")\<close>\<close>

fun join_lines :: "string list \<Rightarrow> string" where
  "join_lines [] = []"
| "join_lines [l] = l"
| "join_lines (l # l' # ls) = l @ [CHR 0x0A] @ join_lines (l' # ls)"

text \<open>
  \<^verbatim>\<open>elements.sort()\<close> orders strings by their code units, which is the lexicographic
  order of \<^typ>\<open>string\<close>. The result is \<open>None\<close> when the loop over the matches never ends.
\<close>

definition extractUIFingerprint :: "string \<Rightarrow> string option" where
  "extractUIFingerprint xml =
     (case exec_all False fingerprint_regex xml of
        None \<Rightarrow> None
      | Some sts \<Rightarrow>
          Some (join_lines (sort (map fingerprint_record
                  (filter (\<lambda>st. truthy (caps st 1) \<or> truthy (caps st 2)) sts)))))"






section \<open>Dumps as uiautomator writes them\<close>

text \<open>
  The tools read what \<^verbatim>\<open>uiautomator dump\<close> has written: one \<^verbatim>\<open>node\<close> tag for each
  element of the screen, with the attributes in a fixed order and the text before the
  bounds. The elements below have the fields of the specification; their tags are written
  one after the other, since no tool looks at the nesting.
\<close>

definition digit_char :: "nat \<Rightarrow> char" where
  "digit_char n = char_of (48 + n)"

text \<open>The decimal numeral of a number.\<close>

function show_nat :: "nat \<Rightarrow> string" where
  "show_nat n =
     (if n < 10 then [digit_char n] else show_nat (n div 10) @ [digit_char (n mod 10)])"
  by pat_completeness auto
termination
  by (relation "measure id") auto

declare show_nat.simps [simp del]

record element =
  el_text :: string
  el_resourceId :: string
  el_className :: string
  el_x1 :: nat
  el_y1 :: nat
  el_x2 :: nat
  el_y2 :: nat
  el_clickable :: bool
  el_enabled :: bool
  el_focused :: bool

definition bool_text :: "bool \<Rightarrow> string" where
  "bool_text b = (if b then ''true'' else ''false'')"

text \<open>The text \<^verbatim>\<open>bounds="[a,b][c,d]"\<close>.\<close>

definition bounds_text :: "string \<Rightarrow> string \<Rightarrow> string \<Rightarrow> string \<Rightarrow> string" where
  "bounds_text a b c d = ''bounds=\"['' @ a @ '','' @ b @ '']['' @ c @ '','' @ d @ '']\"''"

text \<open>What follows the opening quote of the text attribute in the tag of an element.\<close>

definition after_text :: "element \<Rightarrow> string" where
  "after_text e =
     el_text e @ ''\" resource-id=\"'' @ el_resourceId e @ ''\" class=\"'' @ el_className e @
     ''\" clickable=\"'' @ bool_text (el_clickable e) @
     ''\" enabled=\"'' @ bool_text (el_enabled e) @
     ''\" focused=\"'' @ bool_text (el_focused e) @ ''\" '' @
     bounds_text (show_nat (el_x1 e)) (show_nat (el_y1 e))
       (show_nat (el_x2 e)) (show_nat (el_y2 e)) @ '' />''"

definition node_tag :: "element \<Rightarrow> string" where
  "node_tag e = ''<node index=\"0\" text=\"'' @ after_text e"

definition ui_dump :: "element list \<Rightarrow> string" where
  "ui_dump es =
     ''<hierarchy rotation=\"0\">'' @ concat (map node_tag es) @ ''</hierarchy>''"

text \<open>
  An attribute value as it stands in a dump has no double quote and no \<^verbatim>\<open>>\<close>: the
  writer of the dump replaces them by \<^verbatim>\<open>&quot;\<close> and \<^verbatim>\<open>&gt;\<close>.
\<close>

definition attribute_value :: "string \<Rightarrow> bool" where
  "attribute_value v = (\<forall>c\<in>set v. c \<noteq> CHR 0x22 \<and> c \<noteq> CHR ''>'')"

definition well_formed :: "element \<Rightarrow> bool" where
  "well_formed e =
     (attribute_value (el_text e) \<and> attribute_value (el_resourceId e) \<and>
      attribute_value (el_className e))"

text \<open>Equality of two texts up to the case of their letters.\<close>

definition same_text :: "string \<Rightarrow> string \<Rightarrow> bool" where
  "same_text a b = (map canonicalize a = map canonicalize b)"

text \<open>A value that ends in \<^verbatim>\<open>text=\<close>, in any case of the letters.\<close>

definition ends_in_text_eq :: "string \<Rightarrow> bool" where
  "ends_in_text_eq v = (5 \<le> length v \<and> same_text (drop (length v - 5) v) ''text='')"

text \<open>A text without a double quote.\<close>

definition no_quote :: "string \<Rightarrow> bool" where
  "no_quote v = (\<forall>c\<in>set v. c \<noteq> CHR 0x22)"

text \<open>
  A text without a line end, which a dump writes as \<^verbatim>\<open>&#10;\<close> or \<^verbatim>\<open>&#13;\<close> inside an
  attribute value.
\<close>

definition one_line :: "string \<Rightarrow> bool" where
  "one_line v = list_all (cmatch AnyChar) v"

text \<open>
  An element whose three attribute values are attribute values as they stand in a dump, none
  of which ends in \<^verbatim>\<open>text=\<close>.
\<close>

definition plain_values :: "element \<Rightarrow> bool" where
  "plain_values e =
     (well_formed e \<and> \<not> ends_in_text_eq (el_text e) \<and>
      \<not> ends_in_text_eq (el_resourceId e) \<and> \<not> ends_in_text_eq (el_className e))"

text \<open>
  An element whose coordinates, and the sums of the two in each direction, are integers up
  to \<open>2 ^ 53\<close>, which doubles hold as they are.
\<close>

definition exact_coordinates :: "element \<Rightarrow> bool" where
  "exact_coordinates e =
     (int (el_x1 e) + int (el_x2 e) \<le> 2 ^ 53 \<and> int (el_y1 e) + int (el_y2 e) \<le> 2 ^ 53)"

text \<open>The entry of \<^verbatim>\<open>get_all_text\<close> and the match of the locators for an element.\<close>

definition entry_of :: "element \<Rightarrow> text_entry" where
  "entry_of e =
     \<lparr>te_text = (if el_text e = [] then ''(empty)'' else el_text e),
      te_centerX = Num (round (rat_of_int (int (el_x1 e) + int (el_x2 e)) / 2)),
      te_centerY = Num (round (rat_of_int (int (el_y1 e) + int (el_y2 e)) / 2))\<rparr>"

definition rect_of_element :: "element \<Rightarrow> rect" where
  "rect_of_element e =
     \<lparr>x1 = Num (int (el_x1 e)), y1 = Num (int (el_y1 e)),
      x2 = Num (int (el_x2 e)), y2 = Num (int (el_y2 e))\<rparr>"

text \<open>
  The occurrences of a well-formed bounds attribute in a dump, from left to right: the
  matches of the pattern \<^verbatim>\<open>bounds="\[(\d+),(\d+)\]\[(\d+),(\d+)\]"\<close>, which
  \<^verbatim>\<open>get_clickable_elements\<close> uses on its own.
\<close>

definition bounds_occurrences :: "string \<Rightarrow> rect list option" where
  "bounds_occurrences xml = map_option (map rect_of) (exec_all False (bounds_atoms_from 1) xml)"

section \<open>Example dumps\<close>

text \<open>Two buttons whose texts differ by case only, with different resource ids.\<close>

definition two_ok :: string where
  "two_ok =
     ''<node index=\"0\" text=\"OK\" resource-id=\"com.app:id/a\" class=\"android.widget.Button\" bounds=\"[0,0][10,10]\" />'' @
     ''<node index=\"1\" text=\"ok\" resource-id=\"comXapp:id/b\" class=\"android.widget.Button\" bounds=\"[100,200][300,250]\" />''"

text \<open>The dump of the end-to-end example of the specification.\<close>

definition submit_dump :: string where
  "submit_dump = ''text=\"Submit\" bounds=\"[100,200][300,250]\"''"

text \<open>
  Two elements with the same resource id pattern but different texts, a button with resource
  id \<^verbatim>\<open>id/b\<close> below one with \<^verbatim>\<open>id/a\<close>.
\<close>

definition ok_cancel :: string where
  "ok_cancel =
     ''<node text=\"OK\" resource-id=\"id/a\" bounds=\"[0,0][10,10]\" />'' @
     ''<node text=\"Cancel\" resource-id=\"id/b\" bounds=\"[20,20][40,40]\" />''"

text \<open>One element, whose resource id differs from \<^verbatim>\<open>com.app:id/btn\<close> in one character.\<close>

definition other_id :: string where
  "other_id = ''<node text=\"Go\" resource-id=\"comXapp:id/btn\" bounds=\"[0,0][10,10]\" />''"



text \<open>A label, and the same label one unit taller.\<close>

definition label_dump :: string where
  "label_dump =
     ''<node index=\"0\" text=\"Hi\" resource-id=\"\" class=\"android.widget.TextView\" bounds=\"[0,0][1,1]\" />''"

definition label_dump_moved :: string where
  "label_dump_moved =
     ''<node index=\"0\" text=\"Hi\" resource-id=\"\" class=\"android.widget.TextView\" bounds=\"[0,0][1,2]\" />''"


text \<open>A well-formed one-element dump whose element has the text \<^verbatim>\<open>text=\<close>.\<close>

definition odd_text :: "element list" where
  "odd_text =
     [\<lparr>el_text = ''text='', el_resourceId = ''id/x'', el_className = ''android.widget.Button'',
       el_x1 = 0, el_y1 = 0, el_x2 = 10, el_y2 = 10,
       el_clickable = True, el_enabled = True, el_focused = False\<rparr>]"

text \<open>The elements of the examples of the specification: Login and Log.\<close>

definition login_screen :: "element list" where
  "login_screen =
     [\<lparr>el_text = ''Login'', el_resourceId = ''com.app:id/login'',
       el_className = ''android.widget.Button'',
       el_x1 = 100, el_y1 = 200, el_x2 = 300, el_y2 = 250,
       el_clickable = True, el_enabled = True, el_focused = False\<rparr>,
      \<lparr>el_text = ''LOG'', el_resourceId = ''com.app:id/log'',
       el_className = ''android.widget.TextView'',
       el_x1 = 0, el_y1 = 300, el_x2 = 1080, el_y2 = 401,
       el_clickable = False, el_enabled = True, el_focused = False\<rparr>]"

text \<open>A bounds attribute with no text attribute in front of it.\<close>

definition bare_bounds :: string where
  "bare_bounds = ''<node index=\"0\" bounds=\"[0,0][10,20]\" />''"

text \<open>
  The dump of the end-to-end example with coordinates next to \<open>2 ^ 53\<close>, each of which is
  a double, but not the sum of the two horizontal ones.
\<close>

definition far_dump :: string where
  "far_dump = ''text=\"Submit\" bounds=\"[9007199254740990,0][9007199254740991,3]\"''"

section \<open>Notions for the proofs\<close>

text \<open>The input at which a star over the class \<open>k\<close> cannot take another character.\<close>

definition stops :: "cclass \<Rightarrow> string \<Rightarrow> bool" where
  "stops k s = (s = [] \<or> \<not> cmatch k (hd s))"

text \<open>A non-empty run of decimal digits.\<close>

definition digits :: "string \<Rightarrow> bool" where
  "digits ds = (ds \<noteq> [] \<and> list_all (cmatch Digit) ds)"

text \<open>The state after group \<open>g\<close>, entered at the input \<open>s\<close>, has captured \<open>ds\<close>.\<close>

definition captured :: "nat \<Rightarrow> string \<Rightarrow> string \<Rightarrow> mstate \<Rightarrow> mstate" where
  "captured g s ds st =
     st\<lparr>caps := (caps st)(g := Some ds), marks := (marks st)(g := Some s)\<rparr>"

text \<open>The four groups from \<open>g\<close> on hold the four numerals of the bounds.\<close>

definition with_bounds :: "nat \<Rightarrow> string \<Rightarrow> string \<Rightarrow> string \<Rightarrow> string \<Rightarrow> mstate \<Rightarrow> bool" where
  "with_bounds g a b c d st =
     (caps st g = Some a \<and> caps st (g + 1) = Some b \<and>
      caps st (g + 2) = Some c \<and> caps st (g + 3) = Some d)"

text \<open>A match whose four entries are the numbers of four decimal numerals.\<close>

definition numbers :: "rect \<Rightarrow> bool" where
  "numbers r =
     (\<exists>a b c d. 0 \<le> a \<and> 0 \<le> b \<and> 0 \<le> c \<and> 0 \<le> d \<and>
        r = \<lparr>x1 = decimal_number a, y1 = decimal_number b,
             x2 = decimal_number c, y2 = decimal_number d\<rparr>)"

text \<open>\<^const>\<open>canonicalize\<close> on the codes of the characters.\<close>

definition upper_code :: "nat \<Rightarrow> nat" where
  "upper_code n =
     (if (97 \<le> n \<and> n \<le> 122) \<or> (224 \<le> n \<and> n \<le> 254 \<and> n \<noteq> 247) then n - 32 else n)"

text \<open>The attributes between the text and the bounds of an element.\<close>

definition attrs_mid :: "element \<Rightarrow> string" where
  "attrs_mid e =
     '' resource-id=\"'' @ el_resourceId e @ ''\" class=\"'' @ el_className e @
     ''\" clickable=\"'' @ bool_text (el_clickable e) @
     ''\" enabled=\"'' @ bool_text (el_enabled e) @
     ''\" focused=\"'' @ bool_text (el_focused e) @ ''\" ''"

text \<open>The bounds attribute of an element.\<close>

definition bounds_of :: "element \<Rightarrow> string" where
  "bounds_of e =
     bounds_text (show_nat (el_x1 e)) (show_nat (el_y1 e))
       (show_nat (el_x2 e)) (show_nat (el_y2 e))"

text \<open>The groups from \<open>g\<close> on hold the numerals of the bounds of the element.\<close>

definition has_bounds :: "nat \<Rightarrow> element \<Rightarrow> mstate \<Rightarrow> bool" where
  "has_bounds g e st =
     with_bounds g (show_nat (el_x1 e)) (show_nat (el_y1 e))
       (show_nat (el_x2 e)) (show_nat (el_y2 e)) st"

text \<open>No character of the text can start the word \<^verbatim>\<open>bounds\<close>.\<close>

definition no_b :: "bool \<Rightarrow> string \<Rightarrow> bool" where
  "no_b ic s = (\<forall>y\<in>set s. \<not> ceq ic (CHR ''b'') y)"

text \<open>A match of the pattern of \<^verbatim>\<open>get_all_text\<close> that has found the element.\<close>

definition entry_found :: "mstate \<Rightarrow> element \<Rightarrow> bool" where
  "entry_found st e = (caps st 1 = Some (el_text e) \<and> has_bounds 2 e st)"

text \<open>What follows \<^verbatim>\<open>text="\<close> in the pattern of an exact text.\<close>

definition exact_tail :: "string \<Rightarrow> atom list" where
  "exact_tail q =
     lits q @ Lit (CHR 0x22) # Star (NotChar (CHR ''>'')) # bounds_atoms_from 1"

text \<open>The pattern \<^verbatim>\<open>text="\<close> followed by \<open>r\<close>, one literal after the other.\<close>

definition text_attr :: "atom list \<Rightarrow> atom list" where
  "text_attr r =
     Lit (CHR ''t'') # Lit (CHR ''e'') # Lit (CHR ''x'') # Lit (CHR ''t'') # Lit (CHR ''='') #
     Lit (CHR 0x22) # r"

text \<open>The pattern \<^verbatim>\<open>bounds="[\<close> followed by \<open>r\<close>, one literal after the other.\<close>

definition bounds_attr :: "atom list \<Rightarrow> atom list" where
  "bounds_attr r =
     Lit (CHR ''b'') # Lit (CHR ''o'') # Lit (CHR ''u'') # Lit (CHR ''n'') # Lit (CHR ''d'') #
     Lit (CHR ''s'') # Lit (CHR ''='') # Lit (CHR 0x22) # Lit (CHR ''['') # r"

section \<open>The matcher consumes input\<close>

lemma pattern_fragment_escapeRegExp: "pattern_fragment (escapeRegExp t) = Some (lits t)"
  by (induction t) (auto simp: lits_def syntax_char_def)

lemma m_length:
  "m ic p s st = Some (st', rest) \<Longrightarrow> length rest \<le> length s"
  by (induction ic p s st arbitrary: st' rest rule: m.induct)
     (fastforce split: if_splits option.splits)+

lemma m_progress:
  "m ic p s st = Some (st', rest) \<Longrightarrow> \<exists>c. Lit c \<in> set p \<Longrightarrow> length rest < length s"
proof (induction ic p s st arbitrary: st' rest rule: m.induct)
  case (3 ic c r x xs st)
  then show ?case by (auto split: if_splits dest!: m_length)
qed (fastforce split: if_splits option.splits)+

lemma search_progress:
  "search ic p s = Some (st', rest) \<Longrightarrow> \<exists>c. Lit c \<in> set p \<Longrightarrow> length rest < length s"
  by (induction ic p s rule: search.induct) (fastforce split: option.splits dest: m_progress)+

text \<open>A pattern with a literal character consumes input, so the loop over its matches ends.\<close>

lemma exec_all_total:
  "\<exists>c. Lit c \<in> set p \<Longrightarrow> \<exists>sts. exec_all ic p s = Some sts"
proof (induction ic p s rule: exec_all.induct)
  case (1 ic p s)
  show ?case
  proof (cases "search ic p s")
    case None
    then show ?thesis by (simp add: exec_all.simps)
  next
    case (Some a)
    obtain st r where a: "a = (st, r)" by (cases a)
    have lt: "length r < length s"
      using search_progress[of ic p s st r] Some a 1(2) by simp
    from 1(1)[OF Some[unfolded a] refl lt 1(2)]
    obtain sts where "exec_all ic p r = Some sts" by auto
    then show ?thesis using Some a lt by (simp add: exec_all.simps)
  qed
qed

lemma Lit_in_bounds_atoms: "\<exists>c. Lit c \<in> set (q @ bounds_atoms_from g)"
  by (auto simp: bounds_atoms_from_def lits_def)

lemma get_element_bounds_matches_text:
  assumes "truthy text"
  shows "\<exists>ms. get_element_bounds_matches xml text resourceId = Returns ms"
proof -
  obtain p where p: "get_element_bounds_pattern text resourceId = Some p" "\<exists>c. Lit c \<in> set p"
    using assms by (auto simp: get_element_bounds_pattern_def pattern_fragment_escapeRegExp lits_def)
  from exec_all_total[OF p(2)] obtain sts where "exec_all True p xml = Some sts" by blast
  with p(1) show ?thesis by (simp add: get_element_bounds_matches_def)
qed

lemma tap_element_matches_text:
  assumes "truthy text" "\<not> truthy resourceId"
  shows "\<exists>ms. tap_element_matches xml text resourceId exact = Returns ms"
proof -
  from assms(1) obtain t where t: "text = Some t" by (cases "text") (simp_all add: truthy_def)
  obtain p where p: "tap_element_pattern text resourceId exact = Returns p"
    "\<exists>c. Lit c \<in> set p"
    using assms(2) t
    by (cases exact) (auto simp: tap_element_pattern_def pattern_fragment_escapeRegExp lits_def)
  from exec_all_total[OF p(2)] obtain sts where "exec_all True p xml = Some sts" by blast
  with p(1) show ?thesis by (simp add: tap_element_matches_def)
qed

lemma Math_round_half: "Math_round (of_int n / 2) = (n + 1) div 2"
proof -
  have "(of_int n :: rat) / 2 + 1 / 2 = of_int (n + 1) / of_int 2" by (simp add: add_divide_distrib)
  then show ?thesis unfolding Math_round_def by (simp only: floor_divide_of_int_eq)
qed

lemma nearest_exact: "0 \<le> n \<Longrightarrow> n \<le> 2 ^ 53 \<Longrightarrow> nearest n = n"
proof (cases "n < 2 ^ 53")
  case True
  then show ?thesis by (simp add: nearest_def exponent.simps[of n])
next
  case False
  assume "n \<le> 2 ^ 53"
  with False have n: "n = 2 ^ 53" by simp
  have "nearest (2 ^ 53) = 2 ^ 53" by code_simp
  then show ?thesis unfolding n .
qed

lemma exponent_large:
  "2 ^ 53 \<le> n \<Longrightarrow> 1 \<le> exponent n \<and> 2 ^ 52 \<le> n div 2 ^ exponent n"
proof (induction n rule: exponent.induct)
  case (1 n)
  from 1(2) have e: "exponent n = Suc (exponent (n div 2))" by (simp add: exponent.simps[of n])
  show ?case
  proof (cases "n div 2 < 2 ^ 53")
    case True
    then have "exponent (n div 2) = 0" by (simp add: exponent.simps[of "n div 2"])
    with e 1(2) show ?thesis by simp
  next
    case False
    with 1(1) 1(2) have "2 ^ 52 \<le> n div 2 div 2 ^ exponent (n div 2)" by simp
    moreover have "n div 2 ^ exponent n = n div 2 div 2 ^ exponent (n div 2)"
      unfolding e by (simp add: zdiv_zmult2_eq)
    ultimately show ?thesis using e by simp
  qed
qed

lemma nearest_large:
  assumes "2 ^ 53 \<le> n"
  shows "2 ^ 53 \<le> nearest n"
proof -
  let ?e = "exponent n"
  let ?q = "n div 2 ^ ?e"
  from exponent_large[OF assms] have e: "1 \<le> ?e" and q: "2 ^ 52 \<le> ?q" by simp_all
  from e have "(2 :: int) ^ 1 \<le> 2 ^ ?e" by (intro power_increasing) simp_all
  then have p: "(2 :: int) \<le> 2 ^ ?e" by simp
  from q p have "(2 ^ 52) * 2 \<le> ?q * 2 ^ ?e" by (intro mult_mono) simp_all
  then have l: "2 ^ 53 \<le> ?q * 2 ^ ?e" by simp
  have u: "?q * 2 ^ ?e \<le> (?q + 1) * 2 ^ ?e" by (simp add: distrib_right)
  have "nearest n = ?q * 2 ^ ?e \<or> nearest n = (?q + 1) * 2 ^ ?e"
    by (simp add: nearest_def Let_def)
  then show ?thesis
  proof
    assume "nearest n = ?q * 2 ^ ?e"
    with l show ?thesis by (simp only:)
  next
    assume "nearest n = (?q + 1) * 2 ^ ?e"
    with l u show ?thesis by (simp only:)
  qed
qed

lemma double_exact: "\<bar>z\<bar> \<le> 2 ^ 53 \<Longrightarrow> double z = z"
  by (auto simp: double_def nearest_exact)

lemma decimal_number_exact: "0 \<le> n \<Longrightarrow> n \<le> 2 ^ 53 \<Longrightarrow> decimal_number n = Num n"
  by (simp add: decimal_number_def double_exact)

text \<open>Below \<open>2 ^ 53\<close> the number tells the numeral.\<close>

lemma decimal_number_NumD:
  assumes "0 \<le> a" and "decimal_number a = Num n" and "n < 2 ^ 53"
  shows "a = n"
proof (cases "a < 2 ^ 53")
  case True
  with assms(1,2) show ?thesis by (simp add: decimal_number_exact)
next
  case False
  then have "2 ^ 53 \<le> nearest a" by (intro nearest_large) simp
  moreover from assms(1,2) have "n = nearest a"
    by (simp add: decimal_number_def double_def split: if_splits)
  ultimately show ?thesis using assms(3) by simp
qed

lemma js_sub_Num: "\<bar>a - b\<bar> \<le> 2 ^ 53 \<Longrightarrow> js_sub (Num a) (Num b) = Num (a - b)"
  by (simp add: js_sub_def double_exact)

lemma center_of_Num:
  "\<bar>a + b\<bar> \<le> 2 ^ 53 \<Longrightarrow> center_of (Num a) (Num b) = Num ((a + b + 1) div 2)"
  using Math_round_half[of "a + b"] by (simp add: center_of_def double_exact)

lemma js_nth_in_range: "0 \<le> i \<Longrightarrow> i < int (length xs) \<Longrightarrow> js_nth xs i = Some (xs ! nat i)"
  by (simp add: js_nth_def)

lemma js_nth_negative: "i < 0 \<Longrightarrow> js_nth xs i = None"
  by (simp add: js_nth_def)

section \<open>Literals\<close>

lemma m_lits:
  "m ic (lits L @ r) s st =
     (if length L \<le> length s \<and> list_all2 (ceq ic) L (take (length L) s)
      then m ic r (drop (length L) s) st else None)"
proof (induction L arbitrary: s)
  case Nil
  then show ?case by (simp add: lits_def)
next
  case (Cons c L)
  show ?case
  proof (cases s)
    case Nil
    then show ?thesis by (simp add: lits_def)
  next
    case (Cons x xs)
    then show ?thesis using Cons.IH[of xs] by (simp add: lits_def)
  qed
qed

lemma m_Lit_mismatch:
  "s = [] \<or> \<not> ceq ic c (hd s) \<Longrightarrow> m ic (Lit c # r) s st = None"
  by (cases s) auto

section \<open>The greedy star\<close>

lemma m_Star_stops: "stops k s \<Longrightarrow> m ic (Star k # r) s st = m ic r s st"
  by (cases s) (auto simp: stops_def)

lemma m_Star_sound:
  "m ic (Star k # r) s st = Some res \<Longrightarrow>
     \<exists>a s2. list_all (cmatch k) a \<and> s = a @ s2 \<and> m ic r s2 st = Some res"
proof (induction s)
  case Nil
  then show ?case by auto
next
  case (Cons x xs)
  show ?case
  proof (cases "cmatch k x \<and> m ic (Star k # r) xs st \<noteq> None")
    case True
    then have "m ic (Star k # r) xs st = Some res" using Cons.prems by auto
    from Cons.IH[OF this] obtain a s2 where
      "list_all (cmatch k) a" "xs = a @ s2" "m ic r s2 st = Some res" by blast
    then have "list_all (cmatch k) (x # a) \<and> x # xs = (x # a) @ s2 \<and> m ic r s2 st = Some res"
      using True by simp
    then show ?thesis by blast
  next
    case False
    then have "m ic r (x # xs) st = Some res" using Cons.prems
      by (cases "m ic (Star k # r) xs st") (auto split: if_splits)
    then have "list_all (cmatch k) [] \<and> x # xs = [] @ (x # xs) \<and> m ic r (x # xs) st = Some res"
      by simp
    then show ?thesis by blast
  qed
qed

lemma m_Star_none:
  "list_all (cmatch k) a \<Longrightarrow> stops k s \<Longrightarrow>
   (\<And>b1 b2. a = b1 @ b2 \<Longrightarrow> m ic r (b2 @ s) st = None) \<Longrightarrow>
   m ic (Star k # r) (a @ s) st = None"
proof (induction a)
  case Nil
  then show ?case using Nil(3)[of "[]" "[]"] by (simp add: m_Star_stops)
next
  case (Cons x a)
  have 1: "m ic (Star k # r) (a @ s) st = None"
  proof (rule Cons.IH)
    show "list_all (cmatch k) a" using Cons.prems(1) by simp
    show "stops k s" by fact
    fix b1 b2 assume "a = b1 @ b2"
    then have "x # a = (x # b1) @ b2" by simp
    from Cons.prems(3)[OF this] show "m ic r (b2 @ s) st = None" .
  qed
  have 2: "m ic r ((x # a) @ s) st = None" using Cons.prems(3)[of "[]" "x # a"] by simp
  show ?case using 1 2 Cons.prems(1) by simp
qed

lemma m_Star_first:
  "list_all (cmatch k) a1 \<Longrightarrow> list_all (cmatch k) a2 \<Longrightarrow> stops k s \<Longrightarrow>
   m ic r (a2 @ s) st = Some res \<Longrightarrow>
   (\<And>b1 b2. a2 = b1 @ b2 \<Longrightarrow> b1 \<noteq> [] \<Longrightarrow> m ic r (b2 @ s) st = None) \<Longrightarrow>
   m ic (Star k # r) (a1 @ a2 @ s) st = Some res"
proof (induction a1)
  case Nil
  show ?case
  proof (cases a2)
    case Nil
    then show ?thesis using \<open>m ic r (a2 @ s) st = Some res\<close> \<open>stops k s\<close>
      by (simp add: m_Star_stops)
  next
    case (Cons x a2')
    have "m ic (Star k # r) (a2' @ s) st = None"
    proof (rule m_Star_none)
      show "list_all (cmatch k) a2'" using Nil.prems(2) Cons by simp
      show "stops k s" by fact
      fix b1 b2 assume "a2' = b1 @ b2"
      then have "a2 = (x # b1) @ b2" using Cons by simp
      from Nil.prems(5)[OF this] show "m ic r (b2 @ s) st = None" by simp
    qed
    then show ?thesis using Nil.prems(2,4) Cons by simp
  qed
next
  case (Cons x a1)
  have "m ic (Star k # r) (a1 @ a2 @ s) st = Some res"
    using Cons.IH Cons.prems by simp
  then show ?case using Cons.prems(1) by simp
qed

text \<open>The star in front of a literal: the literal decides where the star can stop.\<close>

lemma m_Star_Lit_first:
  assumes "list_all (cmatch k) a1" and "list_all (cmatch k) (x # a2)" and "stops k s"
    and "m ic (Lit c # r) (x # a2 @ s) st = Some res"
    and "\<forall>y\<in>set a2. \<not> ceq ic c y" and "s = [] \<or> \<not> ceq ic c (hd s)"
  shows "m ic (Star k # Lit c # r) (a1 @ x # a2 @ s) st = Some res"
proof -
  have "m ic (Star k # Lit c # r) (a1 @ (x # a2) @ s) st = Some res"
  proof (rule m_Star_first[OF assms(1) assms(2) assms(3)])
    show "m ic (Lit c # r) ((x # a2) @ s) st = Some res" using assms(4) by simp
    fix b1 b2 assume b: "x # a2 = b1 @ b2" "b1 \<noteq> []"
    then obtain b1' where "b1 = x # b1'" "a2 = b1' @ b2" by (cases b1) auto
    then have "set b2 \<subseteq> set a2" by auto
    then have "b2 @ s = [] \<or> \<not> ceq ic c (hd (b2 @ s))"
      using assms(5,6) by (cases b2) auto
    then show "m ic (Lit c # r) (b2 @ s) st = None" by (rule m_Lit_mismatch)
  qed
  then show ?thesis by simp
qed

section \<open>Capture groups of digits\<close>

lemma close_open_group:
  "close_group g s2 (open_group g (ds @ s2) st) = captured g (ds @ s2) ds st"
  by (simp add: close_group_def open_group_def captured_def)

lemma m_digits_group_sound:
  assumes "m ic (Open g # Plus Digit # Close g # r) s st = Some res"
  shows "\<exists>ds s2. digits ds \<and> s = ds @ s2 \<and> m ic r s2 (captured g s ds st) = Some res"
proof -
  from assms obtain x xs where s: "s = x # xs" and x: "cmatch Digit x"
    and 1: "m ic (Star Digit # Close g # r) xs (open_group g s st) = Some res"
    by (cases s) (auto split: if_splits)
  from m_Star_sound[OF 1] obtain a s2 where a: "list_all (cmatch Digit) a" "xs = a @ s2"
    and 2: "m ic (Close g # r) s2 (open_group g s st) = Some res" by blast
  have "s = (x # a) @ s2" using s a by simp
  moreover have "digits (x # a)" using x a by (simp add: digits_def)
  moreover have "m ic r s2 (captured g s (x # a) st) = Some res"
    using 2 close_open_group[of g s2 "x # a" st] \<open>s = (x # a) @ s2\<close> by simp
  ultimately show ?thesis by blast
qed

lemma m_Star_all:
  "list_all (cmatch k) a \<Longrightarrow> stops k s \<Longrightarrow> m ic r s st = Some res \<Longrightarrow>
   m ic (Star k # r) (a @ s) st = Some res"
  using m_Star_first[of k a "[]" s ic r st res] by simp

lemma m_digits_group:
  assumes "digits ds" and "stops Digit s"
    and "m ic r s (captured g (ds @ s) ds st) = Some res"
  shows "m ic (Open g # Plus Digit # Close g # r) (ds @ s) st = Some res"
proof -
  from assms(1) obtain x a where ds: "ds = x # a" "cmatch Digit x" "list_all (cmatch Digit) a"
    by (cases ds) (auto simp: digits_def)
  have "m ic (Close g # r) s (open_group g (ds @ s) st) = Some res"
    using assms(3) close_open_group[of g s ds st] by simp
  from m_Star_all[OF ds(3) assms(2) this]
  show ?thesis using ds by simp
qed

section \<open>The bounds\<close>

lemma stops_Cons: "stops k (x # s) = (\<not> cmatch k x)"
  by (simp add: stops_def)

lemma caps_captured: "caps (captured g s ds st) h = (if h = g then Some ds else caps st h)"
  by (simp add: captured_def)

lemma m_bounds_atoms:
  assumes "digits a" "digits b" "digits c" "digits d"
  shows "\<exists>st'. m ic (bounds_atoms_from g) (bounds_text a b c d @ s) st = Some (st', s) \<and>
           with_bounds g a b c d st' \<and> (\<forall>h < g. caps st' h = caps st h)"
proof -
  let ?s4 = "'']\"'' @ s"
  let ?s3 = "'','' @ d @ ?s4"
  let ?s2 = "'']['' @ c @ ?s3"
  let ?s1 = "'','' @ b @ ?s2"
  let ?st1 = "captured g (a @ ?s1) a st"
  let ?st2 = "captured (g + 1) (b @ ?s2) b ?st1"
  let ?st3 = "captured (g + 2) (c @ ?s3) c ?st2"
  let ?st4 = "captured (g + 3) (d @ ?s4) d ?st3"
  let ?p4 = "lits '']\"''"
  let ?p3 = "Lit (CHR '','') # Open (g + 3) # Plus Digit # Close (g + 3) # ?p4"
  let ?p2 = "lits '']['' @ Open (g + 2) # Plus Digit # Close (g + 2) # ?p3"
  let ?p1 = "Lit (CHR '','') # Open (g + 1) # Plus Digit # Close (g + 1) # ?p2"
  have e: "ceq ic x x" for x by (simp add: ceq_def)
  have "m ic ?p4 ?s4 ?st4 = Some (?st4, s)" by (simp add: lits_def e)
  from m_digits_group[OF assms(4) _ this]
  have "m ic (Open (g + 3) # Plus Digit # Close (g + 3) # ?p4) (d @ ?s4) ?st3 = Some (?st4, s)"
    by (simp add: stops_Cons)
  then have "m ic ?p3 ?s3 ?st3 = Some (?st4, s)" by (simp add: e)
  from m_digits_group[OF assms(3) _ this]
  have "m ic (Open (g + 2) # Plus Digit # Close (g + 2) # ?p3) (c @ ?s3) ?st2 = Some (?st4, s)"
    by (simp add: stops_Cons)
  then have "m ic ?p2 ?s2 ?st2 = Some (?st4, s)" by (simp add: lits_def e)
  from m_digits_group[OF assms(2) _ this]
  have "m ic (Open (g + 1) # Plus Digit # Close (g + 1) # ?p2) (b @ ?s2) ?st1 = Some (?st4, s)"
    by (simp add: stops_Cons)
  then have "m ic ?p1 ?s1 ?st1 = Some (?st4, s)" by (simp add: e)
  from m_digits_group[OF assms(1) _ this]
  have "m ic (Open g # Plus Digit # Close g # ?p1) (a @ ?s1) st = Some (?st4, s)"
    by (simp add: stops_Cons)
  then have 1: "m ic (bounds_atoms_from g) (bounds_text a b c d @ s) st = Some (?st4, s)"
    by (simp add: bounds_atoms_from_def bounds_text_def lits_def e)
  have "with_bounds g a b c d ?st4" by (simp add: with_bounds_def caps_captured)
  moreover have "\<forall>h < g. caps ?st4 h = caps st h" by (simp add: caps_captured)
  ultimately show ?thesis using 1 by blast
qed

lemma m_Lit_sound:
  "m ic (Lit c # r) s st = Some res \<Longrightarrow> \<exists>xs. m ic r xs st = Some res"
  by (cases s) (auto split: if_splits)

lemma m_lits_sound:
  "m ic (lits L @ r) s st = Some res \<Longrightarrow> \<exists>xs. m ic r xs st = Some res"
  by (auto simp: m_lits split: if_splits)

lemma m_bounds_atoms_sound:
  assumes "m ic (bounds_atoms_from g) s st = Some (st', rest)"
  shows "\<exists>a b c d. digits a \<and> digits b \<and> digits c \<and> digits d \<and> with_bounds g a b c d st'"
proof -
  let ?p4 = "lits '']\"''"
  let ?p3 = "Lit (CHR '','') # Open (g + 3) # Plus Digit # Close (g + 3) # ?p4"
  let ?p2 = "lits '']['' @ Open (g + 2) # Plus Digit # Close (g + 2) # ?p3"
  let ?p1 = "Lit (CHR '','') # Open (g + 1) # Plus Digit # Close (g + 1) # ?p2"
  have "bounds_atoms_from g = lits ''bounds=\"['' @ Open g # Plus Digit # Close g # ?p1"
    by (simp add: bounds_atoms_from_def lits_def)
  with assms m_lits_sound obtain s0 where
    "m ic (Open g # Plus Digit # Close g # ?p1) s0 st = Some (st', rest)" by metis
  from m_digits_group_sound[OF this] obtain a sa where a: "digits a"
    and 1: "m ic ?p1 sa (captured g s0 a st) = Some (st', rest)" by blast
  let ?st1 = "captured g s0 a st"
  from m_Lit_sound[OF 1] obtain s1 where
    "m ic (Open (g + 1) # Plus Digit # Close (g + 1) # ?p2) s1 ?st1 = Some (st', rest)" by blast
  from m_digits_group_sound[OF this] obtain b sb where b: "digits b"
    and 2: "m ic ?p2 sb (captured (g + 1) s1 b ?st1) = Some (st', rest)" by blast
  let ?st2 = "captured (g + 1) s1 b ?st1"
  from m_lits_sound[OF 2] obtain s2 where
    "m ic (Open (g + 2) # Plus Digit # Close (g + 2) # ?p3) s2 ?st2 = Some (st', rest)" by blast
  from m_digits_group_sound[OF this] obtain c sc where c: "digits c"
    and 3: "m ic ?p3 sc (captured (g + 2) s2 c ?st2) = Some (st', rest)" by blast
  let ?st3 = "captured (g + 2) s2 c ?st2"
  from m_Lit_sound[OF 3] obtain s3 where
    "m ic (Open (g + 3) # Plus Digit # Close (g + 3) # ?p4) s3 ?st3 = Some (st', rest)" by blast
  from m_digits_group_sound[OF this] obtain d sd where d: "digits d"
    and 4: "m ic ?p4 sd (captured (g + 3) s3 d ?st3) = Some (st', rest)" by blast
  let ?st4 = "captured (g + 3) s3 d ?st3"
  have "m ic (?p4 @ []) sd ?st4 = Some (st', rest)" using 4 by simp
  from m_lits_sound[OF this] have "st' = ?st4" by auto
  then have "with_bounds g a b c d st'" by (simp add: with_bounds_def caps_captured)
  with a b c d show ?thesis by blast
qed

text \<open>Whatever comes first in a pattern, a match runs the rest of the pattern to its end.\<close>

lemma m_append_sound:
  "m ic pat s st = Some res \<Longrightarrow> pat = p @ q \<Longrightarrow> \<exists>s' st'. m ic q s' st' = Some res"
proof (induction ic pat s st arbitrary: p rule: m.induct)
  case (1 ic s st)
  then show ?case by auto
next
  case (3 ic c r x xs st)
  show ?case
  proof (cases p)
    case Nil
    then show ?thesis using 3(1-) by (metis append_Nil)
  next
    case (Cons a p')
    then show ?thesis using 3 by (auto split: if_splits)
  qed
next
  case (5 ic k r x xs st)
  show ?case
  proof (cases p)
    case Nil
    then show ?thesis using 5(1-) by (metis append_Nil)
  next
    case (Cons a p')
    then show ?thesis using 5 by (auto split: if_splits)
  qed
next
  case (6 ic k r st)
  show ?case
  proof (cases p)
    case Nil
    then show ?thesis using 6(1-) by (metis append_Nil)
  next
    case (Cons a p')
    then show ?thesis using 6 by auto
  qed
next
  case (7 ic k r x xs st)
  show ?case
  proof (cases p)
    case Nil
    then show ?thesis using 7(1-) by (metis append_Nil)
  next
    case (Cons a p')
    then have r: "r = p' @ q" "Star k # r = (Star k # p') @ q" using 7(5) by auto
    show ?thesis
    proof (cases "cmatch k x")
      case True
      show ?thesis
      proof (cases "m ic (Star k # r) xs st")
        case None
        then have "m ic r (x # xs) st = Some res" using 7(4) True by simp
        from 7(2)[OF True None this r(1)] show ?thesis .
      next
        case (Some a)
        then have "m ic (Star k # r) xs st = Some res" using 7(4) True by simp
        from 7(1)[OF True this r(2)] show ?thesis .
      qed
    next
      case False
      then have "m ic r (x # xs) st = Some res" using 7(4) by simp
      from 7(3)[OF False this r(1)] show ?thesis .
    qed
  qed
next
  case (8 ic k r st)
  show ?case
  proof (cases p)
    case Nil
    then show ?thesis using 8(1-) by (metis append_Nil)
  next
    case (Cons a p')
    then show ?thesis using 8 by auto
  qed
next
  case (9 ic k r x xs st)
  show ?case
  proof (cases p)
    case Nil
    then show ?thesis using 9(1-) by (metis append_Nil)
  next
    case (Cons a p')
    then have r: "r = p' @ q" "LazyStar k # r = (LazyStar k # p') @ q" using 9(4) by auto
    show ?thesis
    proof (cases "m ic r (x # xs) st")
      case None
      then have "cmatch k x" "m ic (LazyStar k # r) xs st = Some res"
        using 9(3) by (auto split: if_splits)
      from 9(2)[OF None this r(2)] show ?thesis .
    next
      case (Some a)
      then have "m ic r (x # xs) st = Some res" using 9(3) by simp
      from 9(1)[OF this r(1)] show ?thesis .
    qed
  qed
next
  case (11 ic k r x xs st)
  show ?case
  proof (cases p)
    case Nil
    then show ?thesis using 11(1-) by (metis append_Nil)
  next
    case (Cons a p')
    then have r: "Star k # r = (Star k # p') @ q" using 11(3) by auto
    have "cmatch k x" "m ic (Star k # r) xs st = Some res"
      using 11(2) by (auto split: if_splits)
    from 11(1)[OF this r] show ?thesis .
  qed
next
  case (12 ic g r s st)
  show ?case
  proof (cases p)
    case Nil
    then show ?thesis using 12(1-) by (metis append_Nil)
  next
    case (Cons a p')
    then show ?thesis using 12 by auto
  qed
next
  case (13 ic g r s st)
  show ?case
  proof (cases p)
    case Nil
    then show ?thesis using 13(1-) by (metis append_Nil)
  next
    case (Cons a p')
    then show ?thesis using 13 by auto
  qed
next
  case (14 ic b r s st)
  show ?case
  proof (cases p)
    case Nil
    then show ?thesis using 14(1-) by (metis append_Nil)
  next
    case (Cons a p')
    then have r: "r = p' @ q" "b @ r = (b @ p') @ q" using 14(4) by auto
    show ?thesis
    proof (cases "m ic (b @ r) s st")
      case None
      then have "m ic r s st = Some res" using 14(3) by simp
      from 14(2)[OF None this r(1)] show ?thesis .
    next
      case (Some a)
      then have "m ic (b @ r) s st = Some res" using 14(3) by simp
      from 14(1)[OF this r(2)] show ?thesis .
    qed
  qed
next
  case (2 ic c r st)
  from 2(1) show ?case by simp
next
  case (4 ic k r st)
  from 4(1) show ?case by simp
next
  case (10 ic k r st)
  from 10(1) show ?case by simp
qed

section \<open>Every match carries four numbers\<close>

lemma search_sound:
  "search ic p s = Some res \<Longrightarrow> \<exists>s'. m ic p s' init = Some res"
  by (induction ic p s rule: search.induct) (auto split: option.splits)

lemma exec_all_sound:
  "exec_all ic p s = Some sts \<Longrightarrow> st \<in> set sts \<Longrightarrow> \<exists>s' rest. m ic p s' init = Some (st, rest)"
proof (induction ic p s arbitrary: sts rule: exec_all.induct)
  case (1 ic p s)
  show ?case
  proof (cases "search ic p s")
    case None
    then show ?thesis using 1(2,3) by (simp add: exec_all.simps)
  next
    case (Some a)
    obtain st0 r where a: "a = (st0, r)" by (cases a)
    from 1(2) Some a obtain ms where lt: "length r < length s"
      and ms: "exec_all ic p r = Some ms" and sts: "sts = st0 # ms"
      by (auto simp: exec_all.simps[of ic p s] split: if_splits option.splits)
    show ?thesis
    proof (cases "st = st0")
      case True
      then show ?thesis using search_sound[of ic p s "(st0, r)"] Some a by auto
    next
      case False
      then have "st \<in> set ms" using 1(3) sts by simp
      from 1(1)[OF Some[unfolded a] refl lt ms this] show ?thesis .
    qed
  qed
qed

lemma decimal_from: "0 \<le> k \<Longrightarrow> 0 \<le> foldl (\<lambda>a c. 10 * a + digit_val c) k ds"
proof (induction ds arbitrary: k)
  case Nil
  then show ?case by simp
next
  case (Cons c cs)
  have "0 \<le> digit_val c" by (simp add: digit_val_def)
  with Cons.prems have "0 \<le> 10 * k + digit_val c" by simp
  from Cons.IH[OF this] show ?case by simp
qed

lemma decimal_nonneg: "0 \<le> decimal ds"
  unfolding decimal_def by (rule decimal_from) simp

lemma parseInt_digits: "digits a \<Longrightarrow> parseInt (Some a) = decimal_number (decimal a)"
proof -
  assume "digits a"
  then have tw: "takeWhile (cmatch Digit) a = a" and ne: "a \<noteq> []"
    by (simp_all add: digits_def list_all_iff takeWhile_eq_all_conv)
  show ?thesis by (simp add: parseInt_def Let_def tw ne del: takeWhile_eq_all_conv)
qed

lemma matches_are_numbers:
  assumes "exec_all ic (q @ bounds_atoms_from 1) s = Some sts" and "r \<in> set (map rect_of sts)"
  shows "numbers r"
proof -
  from assms(2) obtain st where st: "st \<in> set sts" "r = rect_of st" by auto
  from exec_all_sound[OF assms(1) st(1)] obtain s' rest where
    "m ic (q @ bounds_atoms_from 1) s' init = Some (st, rest)" by blast
  from m_append_sound[OF this refl] obtain s'' st'' where
    "m ic (bounds_atoms_from 1) s'' st'' = Some (st, rest)" by blast
  from m_bounds_atoms_sound[OF this] obtain a b c d where
    "digits a" "digits b" "digits c" "digits d" "with_bounds 1 a b c d st" by blast
  then have "caps st 1 = Some a" "caps st 2 = Some b" "caps st 3 = Some c" "caps st 4 = Some d"
    and "parseInt (Some a) = decimal_number (decimal a)"
    and "parseInt (Some b) = decimal_number (decimal b)"
    and "parseInt (Some c) = decimal_number (decimal c)"
    and "parseInt (Some d) = decimal_number (decimal d)"
    and "0 \<le> decimal a" "0 \<le> decimal b" "0 \<le> decimal c" "0 \<le> decimal d"
    by (simp_all add: with_bounds_def eval_nat_numeral parseInt_digits decimal_nonneg)
  then show ?thesis
    using st(2) unfolding numbers_def rect_of_def by metis
qed

lemma get_element_bounds_matches_numbers:
  assumes "get_element_bounds_matches xml text resourceId = Returns ms" and "r \<in> set ms"
  shows "numbers r"
proof -
  from assms(1) obtain p sts where p: "get_element_bounds_pattern text resourceId = Some p"
    and sts: "exec_all True p xml = Some sts" and ms: "ms = map rect_of sts"
    by (auto simp: get_element_bounds_matches_def split: option.splits)
  from p obtain q where "p = q @ bounds_atoms_from 1"
    by (auto simp: get_element_bounds_pattern_def split: if_splits)
  with sts ms assms(2) show ?thesis using matches_are_numbers by blast
qed

lemma tap_element_matches_numbers:
  assumes "tap_element_matches xml text resourceId exact = Returns ms" and "r \<in> set ms"
  shows "numbers r"
proof -
  from assms(1) obtain p sts where p: "tap_element_pattern text resourceId exact = Returns p"
    and sts: "exec_all True p xml = Some sts" and ms: "ms = map rect_of sts"
    by (auto simp: tap_element_matches_def split: outcome.splits option.splits)
  from p obtain q where "p = q @ bounds_atoms_from 1"
    by (auto simp: tap_element_pattern_def split: if_splits option.splits)
  with sts ms assms(2) show ?thesis using matches_are_numbers by blast
qed

lemma js_nth_Some: "js_nth xs i = Some x \<Longrightarrow> x \<in> set xs"
  by (auto simp: js_nth_def split: if_splits)

lemma Math_round_is_round: "Math_round q = round q"
  by (simp add: Math_round_def round_def)

lemma round_half: "round (rat_of_int n / 2) = (n + 1) div 2"
  using Math_round_half[of n] by (simp add: Math_round_is_round)

text \<open>Below \<open>2 ^ 53\<close> the arithmetic of the tools is the arithmetic of the integers.\<close>

lemma found_of_exact:
  assumes "0 \<le> a" "0 \<le> b" "0 \<le> c" "0 \<le> d" "a + c < 2 ^ 53" "b + d < 2 ^ 53"
  shows "found_of ms i \<lparr>x1 = decimal_number a, y1 = decimal_number b,
                         x2 = decimal_number c, y2 = decimal_number d\<rparr> =
         \<lparr>matchCount = length ms, index = i, bounds_x = Num a, bounds_y = Num b,
          bounds_width = Num (c - a), bounds_height = Num (d - b),
          center_x = Num (round (rat_of_int (a + c) / 2)),
          center_y = Num (round (rat_of_int (b + d) / 2))\<rparr>"
proof -
  from assms have n: "decimal_number a = Num a" "decimal_number b = Num b"
    "decimal_number c = Num c" "decimal_number d = Num d"
    by (simp_all add: decimal_number_exact)
  from assms have s: "js_sub (Num c) (Num a) = Num (c - a)" "js_sub (Num d) (Num b) = Num (d - b)"
    by (simp_all add: js_sub_Num)
  from assms have c: "center_of (Num a) (Num c) = Num (round (rat_of_int (a + c) / 2))"
    "center_of (Num b) (Num d) = Num (round (rat_of_int (b + d) / 2))"
    unfolding round_half by (simp_all add: center_of_Num)
  show ?thesis unfolding found_of_def n by (simp add: s c)
qed

lemma tapped_exact:
  assumes "0 \<le> a" "0 \<le> b" "0 \<le> c" "0 \<le> d" "a + c < 2 ^ 53" "b + d < 2 ^ 53"
  shows "tapped st ms i \<lparr>x1 = decimal_number a, y1 = decimal_number b,
                          x2 = decimal_number c, y2 = decimal_number d\<rparr> =
         Tapped st (Num (round (rat_of_int (a + c) / 2))) (Num (round (rat_of_int (b + d) / 2)))
           (if length ms > 1 then Some (i + 1, length ms) else None)"
proof -
  from assms have n: "decimal_number a = Num a" "decimal_number b = Num b"
    "decimal_number c = Num c" "decimal_number d = Num d"
    by (simp_all add: decimal_number_exact)
  from assms have c: "center_of (Num a) (Num c) = Num (round (rat_of_int (a + c) / 2))"
    "center_of (Num b) (Num d) = Num (round (rat_of_int (b + d) / 2))"
    unfolding round_half by (simp_all add: center_of_Num)
  show ?thesis unfolding tapped_def n by (simp add: c)
qed

lemma get_element_bounds_FoundD:
  assumes "get_element_bounds xml text resourceId i = Returns (Found f)"
  shows "\<exists>ms mt. get_element_bounds_matches xml text resourceId = Returns ms \<and>
           js_nth ms i = Some mt \<and> f = found_of ms i mt"
proof (cases "get_element_bounds_matches xml text resourceId")
  case (Returns ms)
  then show ?thesis using assms
    by (simp add: get_element_bounds_def split: if_splits option.splits)
qed (use assms in \<open>simp_all add: get_element_bounds_def split: if_splits\<close>)

lemma tap_element_TappedD:
  assumes "tap_element xml text resourceId i exact = Returns (Tapped s cx cy l)"
  shows "\<exists>ms mt. tap_element_matches xml text resourceId exact = Returns ms \<and>
           js_nth ms i = Some mt \<and>
           Tapped s cx cy l = tapped (tap_element_searchType text resourceId exact) ms i mt"
proof (cases "tap_element_matches xml text resourceId exact")
  case (Returns ms)
  then show ?thesis using assms
    by (simp add: tap_element_def Let_def tapped_def split: if_splits option.splits)
qed (use assms in \<open>simp_all add: tap_element_def split: if_splits\<close>)

section \<open>Characters by their codes\<close>

lemma of_char_canonicalize: "(of_char (canonicalize c) :: nat) = upper_code (of_char c)"
proof -
  have "(of_char c :: nat) < 256" by simp
  then have "(of_char c :: nat) - 32 < 256" by arith
  then show ?thesis by (simp add: canonicalize_def Let_def upper_code_def)
qed

lemma ceq_code:
  "ceq ic c x =
     (if ic then upper_code (of_char c) = upper_code (of_char x)
      else (of_char c :: nat) = of_char x)"
proof -
  have "(canonicalize c = canonicalize x) =
        ((of_char (canonicalize c) :: nat) = of_char (canonicalize x))"
    by simp
  then show ?thesis by (simp add: ceq_def of_char_canonicalize)
qed

lemma ceq_refl: "ceq ic x x"
  by (simp add: ceq_def)

lemma of_char_digit_char: "n < 10 \<Longrightarrow> (of_char (digit_char n) :: nat) = 48 + n"
  by (simp add: digit_char_def)

lemma not_b_digit: "cmatch Digit y \<Longrightarrow> \<not> ceq ic (CHR ''b'') y"
  by (auto simp: ceq_code upper_code_def split: if_splits)

lemma not_t_digit: "cmatch Digit y \<Longrightarrow> \<not> ceq ic (CHR ''t'') y"
  by (auto simp: ceq_code upper_code_def split: if_splits)

text \<open>Under either flag a double quote, and an equals sign, match only themselves.\<close>

lemma ceq_quote: "ceq ic (CHR 0x22) x = (x = CHR 0x22)"
proof -
  have "(x = CHR 0x22) = ((of_char x :: nat) = of_char (CHR 0x22))" by (simp only: of_char_eq_iff)
  then show ?thesis by (auto simp: ceq_code upper_code_def split: if_splits)
qed

lemma ceq_quote2: "ceq ic x (CHR 0x22) = (x = CHR 0x22)"
proof -
  have "(x = CHR 0x22) = ((of_char x :: nat) = of_char (CHR 0x22))" by (simp only: of_char_eq_iff)
  then show ?thesis by (auto simp: ceq_code upper_code_def split: if_splits)
qed

section \<open>Numerals\<close>

lemma digits_show_nat: "digits (show_nat n)"
proof (induction n rule: show_nat.induct)
  case (1 n)
  show ?case
  proof (cases "n < 10")
    case True
    then show ?thesis by (simp add: show_nat.simps[of n] digits_def of_char_digit_char)
  next
    case False
    then show ?thesis using 1
      by (simp add: show_nat.simps[of n] digits_def of_char_digit_char)
  qed
qed

lemma decimal_snoc: "decimal (ds @ [c]) = 10 * decimal ds + digit_val c"
  by (simp add: decimal_def)

lemma decimal_show_nat: "decimal (show_nat n) = int n"
proof (induction n rule: show_nat.induct)
  case (1 n)
  show ?case
  proof (cases "n < 10")
    case True
    then show ?thesis
      by (simp add: show_nat.simps[of n] decimal_def digit_val_def of_char_digit_char)
  next
    case False
    have "10 * int (n div 10) + int (n mod 10) = int n" by presburger
    then show ?thesis using False 1
      by (simp add: show_nat.simps[of n] decimal_snoc digit_val_def of_char_digit_char)
  qed
qed

lemma parseInt_show_nat: "int n \<le> 2 ^ 53 \<Longrightarrow> parseInt (Some (show_nat n)) = Num (int n)"
  by (simp add: parseInt_digits digits_show_nat decimal_show_nat decimal_number_exact)

section \<open>A group around a star\<close>

lemma m_star_group:
  assumes "list_all (cmatch k) a" and "stops k s"
    and "m ic r s (captured g (a @ s) a st) = Some res"
  shows "m ic (Open g # Star k # Close g # r) (a @ s) st = Some res"
proof -
  have "m ic (Close g # r) s (open_group g (a @ s) st) = Some res"
    using assms(3) close_open_group[of g s a st] by simp
  from m_Star_all[OF assms(1,2) this] show ?thesis by simp
qed

section \<open>From the text of an element to its bounds\<close>

lemma after_text_split:
  "after_text e = el_text e @ CHR 0x22 # attrs_mid e @ bounds_of e @ '' />''"
  by (simp add: after_text_def attrs_mid_def bounds_of_def)

lemma no_gt_bool_text: "list_all (cmatch (NotChar (CHR ''>''))) (bool_text b)"
  by (simp add: bool_text_def)

lemma attribute_value_no_gt:
  "attribute_value v \<Longrightarrow> list_all (cmatch (NotChar (CHR ''>''))) v"
  by (simp add: attribute_value_def list_all_iff)

lemma no_gt_attrs_mid:
  assumes "well_formed e"
  shows "list_all (cmatch (NotChar (CHR ''>''))) (attrs_mid e)"
proof -
  have "list_all (cmatch (NotChar (CHR ''>''))) (el_resourceId e)"
    "list_all (cmatch (NotChar (CHR ''>''))) (el_className e)"
    using assms by (simp_all add: well_formed_def attribute_value_no_gt)
  then show ?thesis
    by (simp add: attrs_mid_def no_gt_bool_text)
qed

lemma digits_no_gt: "digits a \<Longrightarrow> list_all (cmatch (NotChar (CHR ''>''))) a"
  by (auto simp: digits_def list_all_iff)

lemma no_b_Nil: "no_b ic []"
  by (simp add: no_b_def)

lemma no_b_Cons: "no_b ic (x # s) = (\<not> ceq ic (CHR ''b'') x \<and> no_b ic s)"
  by (simp add: no_b_def)

lemma no_b_append: "no_b ic (s @ t) = (no_b ic s \<and> no_b ic t)"
  by (auto simp: no_b_def)

lemma digits_no_b: "digits a \<Longrightarrow> no_b ic a"
proof -
  assume "digits a"
  then have "\<forall>y\<in>set a. cmatch Digit y" by (simp add: digits_def list_all_iff del: cmatch.simps)
  then show ?thesis unfolding no_b_def using not_b_digit by blast
qed


lemma m_Star_to_bounds:
  assumes mid: "list_all (cmatch (NotChar (CHR ''>''))) mid"
    and d: "digits a" "digits b" "digits c" "digits d"
  shows "\<exists>st'. m ic (Star (NotChar (CHR ''>'')) # bounds_atoms_from g)
                 (mid @ bounds_text a b c d @ '' />'' @ rest) st = Some (st', '' />'' @ rest) \<and>
               with_bounds g a b c d st' \<and> (\<forall>h < g. caps st' h = caps st h)"
proof -
  obtain r0 where r0: "bounds_atoms_from g = Lit (CHR ''b'') # r0"
    by (simp add: bounds_atoms_from_def lits_def)
  let ?a2 = "''ounds=\"['' @ a @ '','' @ b @ '']['' @ c @ '','' @ d @ '']\" /''"
  have bt: "bounds_text a b c d @ '' />'' @ rest = CHR ''b'' # ?a2 @ ''>'' @ rest"
    by (simp add: bounds_text_def)
  from m_bounds_atoms[OF d, of ic g "'' />'' @ rest" st] obtain st' where
    st': "m ic (bounds_atoms_from g) (bounds_text a b c d @ '' />'' @ rest) st
            = Some (st', '' />'' @ rest)"
    and wb: "with_bounds g a b c d st'" "\<forall>h < g. caps st' h = caps st h" by blast
  have 1: "list_all (cmatch (NotChar (CHR ''>''))) (CHR ''b'' # ?a2)"
    using d by (simp add: digits_no_gt)
  have 2: "stops (NotChar (CHR ''>'')) (''>'' @ rest)" by (simp add: stops_def)
  have 3: "m ic (Lit (CHR ''b'') # r0) (CHR ''b'' # ?a2 @ ''>'' @ rest) st
             = Some (st', '' />'' @ rest)"
    using st' by (simp only: r0 bt)
  have "no_b ic ?a2"
    using d by (simp add: no_b_Cons no_b_append no_b_Nil digits_no_b ceq_code upper_code_def)
  then have 4: "\<forall>y\<in>set ?a2. \<not> ceq ic (CHR ''b'') y" by (simp only: no_b_def)
  have 5: "''>'' @ rest = [] \<or> \<not> ceq ic (CHR ''b'') (hd (''>'' @ rest))"
    by (simp add: ceq_code upper_code_def)
  from m_Star_Lit_first[OF mid 1 2 3 4 5]
  have "m ic (Star (NotChar (CHR ''>'')) # bounds_atoms_from g)
          (mid @ bounds_text a b c d @ '' />'' @ rest) st = Some (st', '' />'' @ rest)"
    by (simp only: r0 bt)
  with wb show ?thesis by blast
qed

section \<open>get_all_text on a dump of elements\<close>

lemma attribute_value_no_quote:
  "attribute_value v \<Longrightarrow> list_all (cmatch (NotChar (CHR 0x22))) v"
  by (simp add: attribute_value_def list_all_iff)

lemma digits_bounds_of:
  "digits (show_nat (el_x1 e))" "digits (show_nat (el_y1 e))"
  "digits (show_nat (el_x2 e))" "digits (show_nat (el_y2 e))"
  by (rule digits_show_nat)+

lemma m_get_all_text_at_text:
  assumes "well_formed e"
  shows "\<exists>st'. m False get_all_text_regex (''text=\"'' @ after_text e @ rest) init
                 = Some (st', '' />'' @ rest) \<and>
               caps st' 1 = Some (el_text e) \<and> has_bounds 2 e st'"
proof -
  let ?r = "Lit (CHR 0x22) # Star (NotChar (CHR ''>'')) # bounds_atoms_from 2"
  let ?s = "CHR 0x22 # attrs_mid e @ bounds_of e @ '' />'' @ rest"
  let ?st1 = "captured 1 (el_text e @ ?s) (el_text e) init"
  from m_Star_to_bounds[where ic=False and g=2 and rest=rest and st="?st1",
      OF no_gt_attrs_mid[OF assms] digits_bounds_of[of e]]
  obtain st' where st': "m False (Star (NotChar (CHR ''>'')) # bounds_atoms_from 2)
        (attrs_mid e @ bounds_of e @ '' />'' @ rest) ?st1 = Some (st', '' />'' @ rest)"
    and wb: "has_bounds 2 e st'" and keep: "\<forall>h < 2. caps st' h = caps ?st1 h"
    unfolding bounds_of_def has_bounds_def by blast
  have 1: "m False ?r ?s ?st1 = Some (st', '' />'' @ rest)"
    using st' by (simp add: ceq_def)
  have 2: "list_all (cmatch (NotChar (CHR 0x22))) (el_text e)"
    using assms by (simp add: well_formed_def attribute_value_no_quote)
  have 3: "stops (NotChar (CHR 0x22)) ?s" by (simp add: stops_def)
  from m_star_group[OF 2 3 1]
  have "m False (Open 1 # Star (NotChar (CHR 0x22)) # Close 1 # ?r) (el_text e @ ?s) init
          = Some (st', '' />'' @ rest)" .
  then have "m False get_all_text_regex (''text=\"'' @ after_text e @ rest) init
          = Some (st', '' />'' @ rest)"
    by (simp add: get_all_text_regex_def lits_def ceq_def after_text_split)
  moreover have "caps st' 1 = Some (el_text e)"
    using keep by (simp add: caps_captured)
  ultimately show ?thesis using wb by blast
qed

lemma search_get_all_text_node:
  assumes "well_formed e"
  shows "\<exists>st'. search False get_all_text_regex (node_tag e @ rest) = Some (st', '' />'' @ rest) \<and>
               caps st' 1 = Some (el_text e) \<and> has_bounds 2 e st'"
proof -
  from m_get_all_text_at_text[OF assms, of rest] obtain st' where
    1: "m False get_all_text_regex (''text=\"'' @ after_text e @ rest) init
          = Some (st', '' />'' @ rest)"
    and 2: "caps st' 1 = Some (el_text e)" "has_bounds 2 e st'" by blast
  obtain r where r: "get_all_text_regex = Lit (CHR ''t'') # r"
    by (simp add: get_all_text_regex_def lits_def)
  have "search False get_all_text_regex (node_tag e @ rest) = Some (st', '' />'' @ rest)"
    using 1 unfolding r by (simp add: node_tag_def ceq_def)
  with 2 show ?thesis by blast
qed

section \<open>The loop over the matches, step by step\<close>

lemma exec_all_none: "search ic p s = None \<Longrightarrow> exec_all ic p s = Some []"
  by (simp add: exec_all.simps[of ic p s])

lemma exec_all_step:
  "search ic p s = Some (st, rest) \<Longrightarrow> length rest < length s \<Longrightarrow>
   exec_all ic p rest = Some sts \<Longrightarrow> exec_all ic p s = Some (st # sts)"
  by (simp add: exec_all.simps[of ic p s])

lemma exec_all_skip:
  assumes "search ic p s = search ic p s'" and "length s' \<le> length s"
    and "exec_all ic p s' = Some sts"
  shows "exec_all ic p s = Some sts"
proof (cases "search ic p s'")
  case None
  then show ?thesis using assms by (simp add: exec_all.simps[of ic p s] exec_all.simps[of ic p s'])
next
  case (Some a)
  obtain st r where a: "a = (st, r)" by (cases a)
  have "length r < length s'"
    using assms(3) Some a by (simp add: exec_all.simps[of ic p s'] split: if_splits)
  then show ?thesis using assms Some a
    by (simp add: exec_all.simps[of ic p s] exec_all.simps[of ic p s'])
qed

lemma length_node_tag: "3 < length (node_tag e)"
  by (simp add: node_tag_def)

lemma search_get_all_text_sep:
  "search False get_all_text_regex ('' />'' @ s) = search False get_all_text_regex s"
  by (simp add: get_all_text_regex_def lits_def ceq_def)

lemma search_get_all_text_footer:
  "search False get_all_text_regex ''</hierarchy>'' = None"
  by (simp add: get_all_text_regex_def lits_def ceq_def)

lemma search_get_all_text_header:
  "search False get_all_text_regex (''<hierarchy rotation=\"0\">'' @ s)
     = search False get_all_text_regex s"
  by (simp add: get_all_text_regex_def lits_def ceq_def)

lemma exec_all_get_all_text_nodes:
  assumes "\<forall>e\<in>set es. well_formed e"
  shows "\<exists>sts. exec_all False get_all_text_regex (concat (map node_tag es) @ ''</hierarchy>'')
                 = Some sts \<and> list_all2 entry_found sts es"
  using assms
proof (induction es)
  case Nil
  then show ?case using exec_all_none[OF search_get_all_text_footer] by simp
next
  case (Cons e es)
  let ?rest = "concat (map node_tag es) @ ''</hierarchy>''"
  from Cons obtain sts where sts: "exec_all False get_all_text_regex ?rest = Some sts"
    and all: "list_all2 entry_found sts es" by auto
  have wf: "well_formed e" using Cons.prems by simp
  from search_get_all_text_node[OF wf, of ?rest] obtain st' where
    st': "search False get_all_text_regex (node_tag e @ ?rest) = Some (st', '' />'' @ ?rest)"
    and found: "entry_found st' e" unfolding entry_found_def by blast
  have 1: "exec_all False get_all_text_regex ('' />'' @ ?rest) = Some sts"
    by (rule exec_all_skip[OF search_get_all_text_sep _ sts]) simp
  have 2: "length ('' />'' @ ?rest) < length (node_tag e @ ?rest)"
    using length_node_tag[of e] by simp
  from exec_all_step[OF st' 2 1]
  have "exec_all False get_all_text_regex (node_tag e @ ?rest) = Some (st' # sts)" .
  then show ?case using found all by simp
qed

lemma exact_coordinatesD:
  assumes "exact_coordinates e"
  shows "int (el_x1 e) \<le> 2 ^ 53" "int (el_y1 e) \<le> 2 ^ 53"
    "int (el_x2 e) \<le> 2 ^ 53" "int (el_y2 e) \<le> 2 ^ 53"
    "\<bar>int (el_x1 e) + int (el_x2 e)\<bar> \<le> 2 ^ 53" "\<bar>int (el_y1 e) + int (el_y2 e)\<bar> \<le> 2 ^ 53"
  using assms by (simp_all add: exact_coordinates_def)

lemma text_entry_of_found:
  assumes "entry_found st e" and ex: "exact_coordinates e"
  shows "text_entry_of st = entry_of e" and "truthy (caps st 1) = (el_text e \<noteq> [])"
proof -
  from assms have c: "caps st 1 = Some (el_text e)"
    "caps st 2 = Some (show_nat (el_x1 e))" "caps st 3 = Some (show_nat (el_y1 e))"
    "caps st 4 = Some (show_nat (el_x2 e))" "caps st 5 = Some (show_nat (el_y2 e))"
    by (simp_all add: entry_found_def has_bounds_def with_bounds_def eval_nat_numeral)
  show "truthy (caps st 1) = (el_text e \<noteq> [])" unfolding c by (simp add: truthy_def)
  have r: "center_of (Num (int (el_x1 e))) (Num (int (el_x2 e))) =
           Num (round (rat_of_int (int (el_x1 e) + int (el_x2 e)) / 2))"
    "center_of (Num (int (el_y1 e))) (Num (int (el_y2 e))) =
           Num (round (rat_of_int (int (el_y1 e) + int (el_y2 e)) / 2))"
    unfolding round_half using exact_coordinatesD[OF ex] by (simp_all add: center_of_Num)
  show "text_entry_of st = entry_of e"
    unfolding text_entry_of_def c using exact_coordinatesD[OF ex]
    by (simp add: entry_of_def truthy_def interpolate_def parseInt_show_nat r del: of_int_add)
qed

lemma entries_of_found:
  "list_all2 entry_found sts es \<Longrightarrow> \<forall>e\<in>set es. exact_coordinates e \<Longrightarrow>
   map text_entry_of (filter (\<lambda>st. truthy (caps st 1) \<or> inc) sts) =
   map entry_of (filter (\<lambda>e. el_text e \<noteq> [] \<or> inc) es)"
proof (induction rule: list_all2_induct)
  case Nil
  then show ?case by simp
next
  case (Cons st sts e es)
  from Cons.prems have e: "exact_coordinates e" and es: "\<forall>e\<in>set es. exact_coordinates e"
    by simp_all
  from text_entry_of_found[OF Cons(1) e] Cons(3)[OF es] show ?case by (cases inc) simp_all
qed

section \<open>A literal text up to its closing quote\<close>

lemma no_quote_Cons: "no_quote (x # v) = (x \<noteq> CHR 0x22 \<and> no_quote v)"
  by (simp add: no_quote_def)

lemma same_text_Cons:
  "same_text (x # a) (y # b) = (ceq True x y \<and> same_text a b)"
  by (simp add: same_text_def ceq_def)

lemma same_text_Nil: "same_text [] b = (b = [])" "same_text a [] = (a = [])"
  by (auto simp: same_text_def)

lemma m_lits_quote:
  "no_quote L \<Longrightarrow> no_quote u \<Longrightarrow>
   m True (lits L @ Lit (CHR 0x22) # r) (u @ CHR 0x22 # s) st =
     (if same_text L u then m True r s st else None)"
proof (induction L arbitrary: u)
  case Nil
  then show ?case
    by (cases u) (simp_all add: lits_def ceq_quote same_text_Nil no_quote_Cons)
next
  case (Cons c L)
  show ?case
  proof (cases u)
    case Nil
    then show ?thesis using Cons.prems
      by (simp add: lits_def ceq_quote2 same_text_Nil no_quote_Cons)
  next
    case (Cons x u')
    then show ?thesis using Cons.IH[of u'] Cons.prems
      by (simp add: lits_def same_text_Cons no_quote_Cons)
  qed
qed

section \<open>Positions at which no match starts\<close>

lemma search_skip:
  "(\<And>u1 u2. a = u1 @ u2 \<Longrightarrow> u2 \<noteq> [] \<Longrightarrow> m ic p (u2 @ s) init = None) \<Longrightarrow>
   search ic p (a @ s) = search ic p s"
proof (induction a)
  case Nil
  then show ?case by simp
next
  case (Cons x a)
  have 1: "m ic p ((x # a) @ s) init = None" using Cons.prems[of "[]" "x # a"] by simp
  have 2: "search ic p (a @ s) = search ic p s"
  proof (rule Cons.IH)
    fix u1 u2 assume "a = u1 @ u2" "u2 \<noteq> []"
    then show "m ic p (u2 @ s) init = None" using Cons.prems[of "x # u1" u2] by simp
  qed
  show ?case using 1 2 by simp
qed

lemma search_skip_other:
  assumes "\<forall>c\<in>set a. \<not> ceq ic t c"
  shows "search ic (Lit t # r) (a @ s) = search ic (Lit t # r) s"
proof (rule search_skip)
  fix u1 u2 assume "a = u1 @ u2" "u2 \<noteq> []"
  then obtain x u where "u2 = x # u" "x \<in> set a" by (cases u2) auto
  then show "m ic (Lit t # r) (u2 @ s) init = None" using assms by simp
qed

lemma same_text_sym: "same_text a b = same_text b a"
  by (auto simp: same_text_def)

lemma same_text_length: "same_text a b \<Longrightarrow> length a = length b"
  unfolding same_text_def by (metis length_map)

lemma search_skip_value:
  assumes "no_quote v" and "\<not> ends_in_text_eq v"
  shows "search True (lits ''text=\"'' @ r) (v @ CHR 0x22 # s)
           = search True (lits ''text=\"'' @ r) (CHR 0x22 # s)"
proof (rule search_skip)
  fix u1 u2 assume v: "v = u1 @ u2" and "u2 \<noteq> []"
  have nq: "no_quote u2" "no_quote ''text=''" using assms(1) v by (simp_all add: no_quote_def)
  have "\<not> same_text ''text='' u2"
  proof
    assume st: "same_text ''text='' u2"
    then have "length u2 = 5" using same_text_length[OF st] by simp
    then have "drop (length v - 5) v = u2" "5 \<le> length v" using v by simp_all
    then have "ends_in_text_eq v" using st by (simp add: ends_in_text_eq_def same_text_sym)
    with assms(2) show False by simp
  qed
  moreover have "lits ''text=\"'' @ r = lits ''text='' @ Lit (CHR 0x22) # r"
    by (simp add: lits_def)
  ultimately show "m True (lits ''text=\"'' @ r) (u2 @ CHR 0x22 # s) init = None"
    using m_lits_quote[OF nq(2) nq(1), of r s init] by simp
qed

section \<open>The exact text of tap_element on a dump of elements\<close>

lemma text_attr_lits: "text_attr r = lits ''text=\"'' @ r"
  by (simp add: text_attr_def lits_def)

lemma tap_element_pattern_exact:
  "tap_element_pattern (Some q) None True = Returns (text_attr (exact_tail q))"
  by (simp add: tap_element_pattern_def truthy_def pattern_fragment_escapeRegExp
      text_attr_lits exact_tail_def)

lemma m_text_attr:
  "m ic (text_attr r) (''text=\"'' @ s) st = m ic r s st"
  by (simp add: text_attr_def ceq_refl)

lemma well_formed_no_quote:
  "well_formed e \<Longrightarrow> no_quote (el_text e)"
  "well_formed e \<Longrightarrow> no_quote (el_resourceId e)"
  "well_formed e \<Longrightarrow> no_quote (el_className e)"
  by (simp_all add: well_formed_def attribute_value_def no_quote_def)

lemma m_exact_at_text:
  assumes "well_formed e" and "no_quote q"
  shows "same_text q (el_text e) \<Longrightarrow>
           \<exists>st'. m True (text_attr (exact_tail q)) (''text=\"'' @ after_text e @ rest) init
                    = Some (st', '' />'' @ rest) \<and> has_bounds 1 e st'"
    and "\<not> same_text q (el_text e) \<Longrightarrow>
           m True (text_attr (exact_tail q)) (''text=\"'' @ after_text e @ rest) init = None"
proof -
  let ?s = "attrs_mid e @ bounds_of e @ '' />'' @ rest"
  have 1: "m True (text_attr (exact_tail q)) (''text=\"'' @ after_text e @ rest) init =
        (if same_text q (el_text e)
         then m True (Star (NotChar (CHR ''>'')) # bounds_atoms_from 1) ?s init else None)"
    unfolding m_text_attr exact_tail_def after_text_split
    using m_lits_quote[OF assms(2) well_formed_no_quote(1)[OF assms(1)]] by simp
  show "\<not> same_text q (el_text e) \<Longrightarrow>
           m True (text_attr (exact_tail q)) (''text=\"'' @ after_text e @ rest) init = None"
    using 1 by simp
  assume same: "same_text q (el_text e)"
  from m_Star_to_bounds[where ic=True and g=1 and rest=rest and st=init,
      OF no_gt_attrs_mid[OF assms(1)] digits_bounds_of[of e]]
  obtain st' where "m True (Star (NotChar (CHR ''>'')) # bounds_atoms_from 1) ?s init
        = Some (st', '' />'' @ rest)" and "has_bounds 1 e st'"
    unfolding bounds_of_def has_bounds_def by blast
  then show "\<exists>st'. m True (text_attr (exact_tail q)) (''text=\"'' @ after_text e @ rest) init
                    = Some (st', '' />'' @ rest) \<and> has_bounds 1 e st'"
    using 1 same by auto
qed

lemma search_Cons_other:
  "\<not> ceq ic t x \<Longrightarrow> search ic (Lit t # r) (x # s) = search ic (Lit t # r) s"
  by simp

lemma search_text_attr_Cons:
  "\<not> ceq ic (CHR ''t'') x \<Longrightarrow> search ic (text_attr r) (x # s) = search ic (text_attr r) s"
  by (simp add: text_attr_def)

lemma search_text_attr_t:
  "\<not> ceq ic (CHR ''e'') y \<Longrightarrow>
   search ic (text_attr r) (x # y # s) = search ic (text_attr r) (y # s)"
  by (simp add: text_attr_def)

lemma search_text_attr_value:
  "no_quote v \<Longrightarrow> \<not> ends_in_text_eq v \<Longrightarrow>
   search True (text_attr r) (v @ CHR 0x22 # s) = search True (text_attr r) (CHR 0x22 # s)"
  unfolding text_attr_lits by (rule search_skip_value)

lemma search_text_attr_digits:
  assumes "digits d"
  shows "search ic (text_attr r) (d @ s) = search ic (text_attr r) s"
proof -
  from assms have "\<forall>y\<in>set d. cmatch Digit y"
    by (simp add: digits_def list_all_iff del: cmatch.simps)
  then have "\<forall>y\<in>set d. \<not> ceq ic (CHR ''t'') y" using not_t_digit by blast
  then show ?thesis unfolding text_attr_def by (rule search_skip_other)
qed

lemma search_text_attr_bool:
  "search True (text_attr r) (bool_text b @ s) = search True (text_attr r) s"
  by (cases b) (simp_all add: bool_text_def text_attr_def ceq_code upper_code_def)

lemma search_text_attr_after_value:
  assumes "plain_values e"
  shows "search True (text_attr r) (CHR 0x22 # attrs_mid e @ bounds_of e @ '' />'' @ rest)
           = search True (text_attr r) rest"
proof -
  have wf: "well_formed e" using assms by (simp add: plain_values_def)
  have ne: "\<not> ends_in_text_eq (el_resourceId e)" "\<not> ends_in_text_eq (el_className e)"
    using assms by (simp_all add: plain_values_def)
  note v1 = search_text_attr_value[OF well_formed_no_quote(2)[OF wf] ne(1), of r]
  note v2 = search_text_attr_value[OF well_formed_no_quote(3)[OF wf] ne(2), of r]
  show ?thesis
    unfolding attrs_mid_def bounds_of_def bounds_text_def
    by (simp add: search_text_attr_Cons search_text_attr_bool
        search_text_attr_digits[OF digits_show_nat] v1 v2
        ceq_code upper_code_def del: search.simps)
qed

lemma search_here: "m ic p (x # s) init = Some res \<Longrightarrow> search ic p (x # s) = Some res"
  by simp

lemma search_next: "m ic p (x # s) init = None \<Longrightarrow> search ic p (x # s) = search ic p s"
  by simp

lemma node_tag_split: "node_tag e = ''<node index=\"0\" '' @ ''text=\"'' @ after_text e"
  by (simp add: node_tag_def)

lemma search_text_attr_node_start:
  "search True (text_attr r) (''<node index=\"0\" '' @ s) = search True (text_attr r) s"
  by (simp add: search_text_attr_Cons ceq_code upper_code_def del: search.simps)

lemma search_exact_node_match:
  assumes "well_formed e" and "no_quote q" and "same_text q (el_text e)"
  shows "\<exists>st'. search True (text_attr (exact_tail q)) (node_tag e @ rest)
                 = Some (st', '' />'' @ rest) \<and> has_bounds 1 e st'"
proof -
  from m_exact_at_text(1)[OF assms, of rest] obtain st' where
    1: "m True (text_attr (exact_tail q)) (''text=\"'' @ after_text e @ rest) init
          = Some (st', '' />'' @ rest)" and 2: "has_bounds 1 e st'" by blast
  have "search True (text_attr (exact_tail q)) (''text=\"'' @ after_text e @ rest)
          = Some (st', '' />'' @ rest)"
    using search_here[of True _ "CHR ''t''" "''ext=\"'' @ after_text e @ rest"] 1 by simp
  then have "search True (text_attr (exact_tail q)) (node_tag e @ rest)
          = Some (st', '' />'' @ rest)"
    unfolding node_tag_split append_assoc search_text_attr_node_start .
  with 2 show ?thesis by blast
qed

lemma search_exact_node_skip:
  assumes "plain_values e" and "no_quote q" and "\<not> same_text q (el_text e)"
  shows "search True (text_attr (exact_tail q)) (node_tag e @ rest)
           = search True (text_attr (exact_tail q)) rest"
proof -
  let ?p = "text_attr (exact_tail q)"
  have wf: "well_formed e" and ne: "\<not> ends_in_text_eq (el_text e)"
    using assms(1) by (simp_all add: plain_values_def)
  have "m True ?p (''text=\"'' @ after_text e @ rest) init = None"
    by (rule m_exact_at_text(2)[OF wf assms(2,3)])
  then have "search True ?p (''text=\"'' @ after_text e @ rest)
          = search True ?p (''ext=\"'' @ after_text e @ rest)"
    using search_next[of True ?p "CHR ''t''" "''ext=\"'' @ after_text e @ rest"] by simp
  also have "\<dots> = search True ?p (after_text e @ rest)"
    by (simp add: search_text_attr_Cons search_text_attr_t ceq_code upper_code_def
        del: search.simps)
  also have "\<dots> = search True ?p
       (CHR 0x22 # attrs_mid e @ bounds_of e @ '' />'' @ rest)"
    unfolding after_text_split
    using search_text_attr_value[OF well_formed_no_quote(1)[OF wf] ne] by simp
  also have "\<dots> = search True ?p rest"
    by (rule search_text_attr_after_value[OF assms(1)])
  finally show ?thesis
    unfolding node_tag_split append_assoc search_text_attr_node_start .
qed

lemma search_text_attr_sep:
  "search True (text_attr r) ('' />'' @ s) = search True (text_attr r) s"
  by (simp add: search_text_attr_Cons ceq_code upper_code_def del: search.simps)

lemma search_text_attr_header:
  "search True (text_attr r) (''<hierarchy rotation=\"0\">'' @ s) = search True (text_attr r) s"
  by (simp add: search_text_attr_Cons search_text_attr_t ceq_code upper_code_def
      del: search.simps)

lemma search_text_attr_footer:
  "search True (text_attr r) ''</hierarchy>'' = None"
proof -
  have "search True (text_attr r) (''</hierarchy>'' @ []) = search True (text_attr r) []"
    by (simp add: search_text_attr_Cons ceq_code upper_code_def del: search.simps)
  then show ?thesis by (simp add: text_attr_def)
qed

lemma exec_all_exact_nodes:
  assumes "\<forall>e\<in>set es. plain_values e" and "no_quote q"
  shows "\<exists>sts. exec_all True (text_attr (exact_tail q))
                 (concat (map node_tag es) @ ''</hierarchy>'') = Some sts \<and>
               list_all2 (\<lambda>st e. has_bounds 1 e st) sts
                 (filter (\<lambda>e. same_text q (el_text e)) es)"
  using assms(1)
proof (induction es)
  case Nil
  then show ?case using exec_all_none[OF search_text_attr_footer] by simp
next
  case (Cons e es)
  let ?p = "text_attr (exact_tail q)"
  let ?rest = "concat (map node_tag es) @ ''</hierarchy>''"
  from Cons obtain sts where sts: "exec_all True ?p ?rest = Some sts"
    and all: "list_all2 (\<lambda>st e. has_bounds 1 e st) sts
                (filter (\<lambda>e. same_text q (el_text e)) es)" by auto
  have pv: "plain_values e" using Cons.prems by simp
  then have wf: "well_formed e" by (simp add: plain_values_def)
  show ?case
  proof (cases "same_text q (el_text e)")
    case True
    from search_exact_node_match[OF wf assms(2) True, of ?rest] obtain st' where
      st': "search True ?p (node_tag e @ ?rest) = Some (st', '' />'' @ ?rest)"
      and found: "has_bounds 1 e st'" by blast
    have 1: "exec_all True ?p ('' />'' @ ?rest) = Some sts"
      by (rule exec_all_skip[OF search_text_attr_sep _ sts]) simp
    have 2: "length ('' />'' @ ?rest) < length (node_tag e @ ?rest)"
      using length_node_tag[of e] by simp
    from exec_all_step[OF st' 2 1]
    have "exec_all True ?p (node_tag e @ ?rest) = Some (st' # sts)" .
    then show ?thesis using found all True by simp
  next
    case False
    have "exec_all True ?p (node_tag e @ ?rest) = Some sts"
      by (rule exec_all_skip[OF search_exact_node_skip[OF pv assms(2) False] _ sts]) simp
    then show ?thesis using all False by simp
  qed
qed

lemma rect_of_has_bounds:
  assumes "has_bounds 1 e st" and ex: "exact_coordinates e"
  shows "rect_of st = rect_of_element e"
proof -
  from assms(1) have c: "caps st 1 = Some (show_nat (el_x1 e))" "caps st 2 = Some (show_nat (el_y1 e))"
    "caps st 3 = Some (show_nat (el_x2 e))" "caps st 4 = Some (show_nat (el_y2 e))"
    by (simp_all add: has_bounds_def with_bounds_def eval_nat_numeral)
  show ?thesis unfolding rect_of_def c using exact_coordinatesD[OF ex]
    by (simp add: rect_of_element_def parseInt_show_nat)
qed

lemma rects_of_has_bounds:
  "list_all2 (\<lambda>st e. has_bounds 1 e st) sts es \<Longrightarrow> \<forall>e\<in>set es. exact_coordinates e \<Longrightarrow>
   map rect_of sts = map rect_of_element es"
  by (induction rule: list_all2_induct) (simp_all add: rect_of_has_bounds)

section \<open>The lazy star\<close>

lemma m_LazyStar_here:
  "m ic r s st = Some res \<Longrightarrow> m ic (LazyStar k # r) s st = Some res"
  by (cases s) simp_all

lemma m_LazyStar_skip:
  "list_all (cmatch k) a \<Longrightarrow>
   (\<And>u1 u2. a = u1 @ u2 \<Longrightarrow> u2 \<noteq> [] \<Longrightarrow> m ic r (u2 @ s) st = None) \<Longrightarrow>
   m ic (LazyStar k # r) (a @ s) st = m ic (LazyStar k # r) s st"
proof (induction a)
  case Nil
  then show ?case by simp
next
  case (Cons x a)
  have 1: "m ic r ((x # a) @ s) st = None" using Cons.prems(2)[of "[]" "x # a"] by simp
  have 2: "m ic (LazyStar k # r) (a @ s) st = m ic (LazyStar k # r) s st"
  proof (rule Cons.IH)
    show "list_all (cmatch k) a" using Cons.prems(1) by simp
    fix u1 u2 assume "a = u1 @ u2" "u2 \<noteq> []"
    then show "m ic r (u2 @ s) st = None" using Cons.prems(2)[of "x # u1" u2] by simp
  qed
  show ?case using 1 2 Cons.prems(1) by simp
qed

lemma list_all2_ceq_True: "list_all2 (ceq True) a b = same_text a b"
proof (induction a arbitrary: b)
  case Nil
  then show ?case by (simp add: same_text_Nil)
next
  case (Cons x a)
  then show ?case by (cases b) (simp_all add: same_text_Cons same_text_Nil)
qed

lemma m_lits_quote_any:
  "no_quote L \<Longrightarrow> no_quote u \<Longrightarrow>
   m ic (lits L @ Lit (CHR 0x22) # r) (u @ CHR 0x22 # s) st =
     (if list_all2 (ceq ic) L u then m ic r s st else None)"
proof (induction L arbitrary: u)
  case Nil
  then show ?case
    by (cases u) (simp_all add: lits_def ceq_quote no_quote_Cons)
next
  case (Cons c L)
  show ?case
  proof (cases u)
    case Nil
    then show ?thesis using Cons.prems
      by (simp add: lits_def ceq_quote2 no_quote_Cons)
  next
    case (Cons x u')
    then show ?thesis using Cons.IH[of u'] Cons.prems
      by (simp add: lits_def no_quote_Cons)
  qed
qed

lemma bounds_attr_lits: "bounds_attr r = lits ''bounds='' @ Lit (CHR 0x22) # Lit (CHR ''['') # r"
  by (simp add: bounds_attr_def lits_def)

lemma bounds_atoms_from_attr: "\<exists>r. bounds_atoms_from g = bounds_attr r"
  by (simp add: bounds_atoms_from_def bounds_attr_def lits_def)

text \<open>The quote that closes a value is followed by a space, never by a bracket.\<close>

lemma m_bounds_attr_in_value:
  assumes "no_quote u"
  shows "m ic (bounds_attr r) (u @ CHR 0x22 # CHR '' '' # s) st = None"
proof -
  have "no_quote ''bounds=''" by (simp add: no_quote_def)
  from m_lits_quote_any[OF this assms, of ic "Lit (CHR ''['') # r" "CHR '' '' # s" st]
  show ?thesis by (simp add: bounds_attr_lits ceq_code upper_code_def)
qed

lemma m_LazyStar_value:
  assumes "no_quote v" and "one_line v"
  shows "m ic (LazyStar AnyChar # bounds_attr r) (v @ CHR 0x22 # CHR '' '' # s) st
           = m ic (LazyStar AnyChar # bounds_attr r) (CHR 0x22 # CHR '' '' # s) st"
proof (rule m_LazyStar_skip)
  show "list_all (cmatch AnyChar) v" using assms(2) by (simp only: one_line_def)
  fix u1 u2 assume "v = u1 @ u2"
  then have "no_quote u2" using assms(1) by (simp add: no_quote_def)
  then show "m ic (bounds_attr r) (u2 @ CHR 0x22 # CHR '' '' # s) st = None"
    by (rule m_bounds_attr_in_value)
qed

lemma m_LazyStar_one:
  "cmatch k x \<Longrightarrow> m ic r (x # s) st = None \<Longrightarrow>
   m ic (LazyStar k # r) (x # s) st = m ic (LazyStar k # r) s st"
  using m_LazyStar_skip[of k "[x]" ic r s st] by (simp add: append_eq_Cons_conv)

lemma m_LazyStar_Cons:
  "cmatch AnyChar x \<Longrightarrow> \<not> ceq ic (CHR ''b'') x \<Longrightarrow>
   m ic (LazyStar AnyChar # bounds_attr r) (x # s) st
     = m ic (LazyStar AnyChar # bounds_attr r) s st"
  by (rule m_LazyStar_one) (simp_all add: bounds_attr_def)

lemma m_LazyStar_b:
  "cmatch AnyChar x \<Longrightarrow> \<not> ceq ic (CHR ''o'') y \<Longrightarrow>
   m ic (LazyStar AnyChar # bounds_attr r) (x # y # s) st
     = m ic (LazyStar AnyChar # bounds_attr r) (y # s) st"
  by (rule m_LazyStar_one) (simp_all add: bounds_attr_def)

lemma m_LazyStar_bool:
  "m ic (LazyStar AnyChar # bounds_attr r) (bool_text b @ s) st
     = m ic (LazyStar AnyChar # bounds_attr r) s st"
  by (cases b)
     (simp_all add: bool_text_def m_LazyStar_Cons ceq_code upper_code_def del: m.simps)

section \<open>get_ui_tree on a dump of elements\<close>

lemma m_LazyStar_to_bounds:
  assumes "well_formed e" and "one_line (el_resourceId e)" and "one_line (el_className e)"
  shows "\<exists>st'. m ic (LazyStar AnyChar # bounds_atoms_from g)
                 (attrs_mid e @ bounds_of e @ '' />'' @ rest) st = Some (st', '' />'' @ rest) \<and>
               has_bounds g e st' \<and> (\<forall>h < g. caps st' h = caps st h)"
proof -
  obtain r where r: "bounds_atoms_from g = bounds_attr r"
    using bounds_atoms_from_attr by blast
  note v1 = m_LazyStar_value[OF well_formed_no_quote(2)[OF assms(1)] assms(2), of ic r]
  note v2 = m_LazyStar_value[OF well_formed_no_quote(3)[OF assms(1)] assms(3), of ic r]
  have skip: "m ic (LazyStar AnyChar # bounds_attr r) (attrs_mid e @ bounds_of e @ '' />'' @ rest) st
      = m ic (LazyStar AnyChar # bounds_attr r) (bounds_of e @ '' />'' @ rest) st"
    unfolding attrs_mid_def
    by (simp add: m_LazyStar_Cons m_LazyStar_b m_LazyStar_bool v1 v2 ceq_code upper_code_def
        del: m.simps)
  from m_bounds_atoms[OF digits_bounds_of[of e], of ic g "'' />'' @ rest" st]
  obtain st' where st': "m ic (bounds_atoms_from g) (bounds_of e @ '' />'' @ rest) st
        = Some (st', '' />'' @ rest)"
    and wb: "has_bounds g e st'" "\<forall>h < g. caps st' h = caps st h"
    unfolding bounds_of_def has_bounds_def by blast
  from m_LazyStar_here[OF st', of AnyChar] skip r wb show ?thesis by simp
qed

lemma m_get_ui_tree_at_text:
  assumes "well_formed e" and "one_line (el_resourceId e)" and "one_line (el_className e)"
  shows "\<exists>st'. m False get_ui_tree_regex (''text=\"'' @ after_text e @ rest) init
                 = Some (st', '' />'' @ rest) \<and> entry_found st' e"
proof -
  let ?r = "Lit (CHR 0x22) # LazyStar AnyChar # bounds_atoms_from 2"
  let ?s = "CHR 0x22 # attrs_mid e @ bounds_of e @ '' />'' @ rest"
  let ?st1 = "captured 1 (el_text e @ ?s) (el_text e) init"
  from m_LazyStar_to_bounds[OF assms, of False 2 rest ?st1]
  obtain st' where st': "m False (LazyStar AnyChar # bounds_atoms_from 2)
        (attrs_mid e @ bounds_of e @ '' />'' @ rest) ?st1 = Some (st', '' />'' @ rest)"
    and wb: "has_bounds 2 e st'" and keep: "\<forall>h < 2. caps st' h = caps ?st1 h"
    by blast
  have 1: "m False ?r ?s ?st1 = Some (st', '' />'' @ rest)"
    using st' by (simp add: ceq_def del: m.simps(8,9))
  have 2: "list_all (cmatch (NotChar (CHR 0x22))) (el_text e)"
    using assms(1) by (simp add: well_formed_def attribute_value_no_quote)
  have 3: "stops (NotChar (CHR 0x22)) ?s" by (simp add: stops_def)
  from m_star_group[OF 2 3 1]
  have "m False (Open 1 # Star (NotChar (CHR 0x22)) # Close 1 # ?r) (el_text e @ ?s) init
          = Some (st', '' />'' @ rest)" .
  then have "m False get_ui_tree_regex (''text=\"'' @ after_text e @ rest) init
          = Some (st', '' />'' @ rest)"
    by (simp add: get_ui_tree_regex_def lits_def ceq_def after_text_split del: m.simps(8,9))
  moreover have "caps st' 1 = Some (el_text e)"
    using keep by (simp add: caps_captured)
  ultimately show ?thesis using wb unfolding entry_found_def by blast
qed

lemma search_get_ui_tree_node:
  assumes "well_formed e" and "one_line (el_resourceId e)" and "one_line (el_className e)"
  shows "\<exists>st'. search False get_ui_tree_regex (node_tag e @ rest) = Some (st', '' />'' @ rest) \<and>
               entry_found st' e"
proof -
  from m_get_ui_tree_at_text[OF assms, of rest] obtain st' where
    1: "m False get_ui_tree_regex (''text=\"'' @ after_text e @ rest) init
          = Some (st', '' />'' @ rest)"
    and 2: "entry_found st' e" by blast
  obtain r where r: "get_ui_tree_regex = Lit (CHR ''t'') # r"
    by (simp add: get_ui_tree_regex_def lits_def)
  have "search False get_ui_tree_regex (node_tag e @ rest) = Some (st', '' />'' @ rest)"
    using 1 unfolding r by (simp add: node_tag_def ceq_def)
  with 2 show ?thesis by blast
qed

lemma search_get_ui_tree_sep:
  "search False get_ui_tree_regex ('' />'' @ s) = search False get_ui_tree_regex s"
  by (simp add: get_ui_tree_regex_def lits_def ceq_def)

lemma search_get_ui_tree_footer:
  "search False get_ui_tree_regex ''</hierarchy>'' = None"
  by (simp add: get_ui_tree_regex_def lits_def ceq_def)

lemma search_get_ui_tree_header:
  "search False get_ui_tree_regex (''<hierarchy rotation=\"0\">'' @ s)
     = search False get_ui_tree_regex s"
  by (simp add: get_ui_tree_regex_def lits_def ceq_def)

lemma exec_all_get_ui_tree_nodes:
  assumes "\<forall>e\<in>set es. well_formed e \<and> one_line (el_resourceId e) \<and> one_line (el_className e)"
  shows "\<exists>sts. exec_all False get_ui_tree_regex (concat (map node_tag es) @ ''</hierarchy>'')
                 = Some sts \<and> list_all2 entry_found sts es"
  using assms
proof (induction es)
  case Nil
  then show ?case using exec_all_none[OF search_get_ui_tree_footer] by simp
next
  case (Cons e es)
  let ?rest = "concat (map node_tag es) @ ''</hierarchy>''"
  from Cons obtain sts where sts: "exec_all False get_ui_tree_regex ?rest = Some sts"
    and all: "list_all2 entry_found sts es" by auto
  have wf: "well_formed e" "one_line (el_resourceId e)" "one_line (el_className e)"
    using Cons.prems by simp_all
  from search_get_ui_tree_node[OF wf, of ?rest] obtain st' where
    st': "search False get_ui_tree_regex (node_tag e @ ?rest) = Some (st', '' />'' @ ?rest)"
    and found: "entry_found st' e" by blast
  have 1: "exec_all False get_ui_tree_regex ('' />'' @ ?rest) = Some sts"
    by (rule exec_all_skip[OF search_get_ui_tree_sep _ sts]) simp
  have 2: "length ('' />'' @ ?rest) < length (node_tag e @ ?rest)"
    using length_node_tag[of e] by simp
  from exec_all_step[OF st' 2 1]
  have "exec_all False get_ui_tree_regex (node_tag e @ ?rest) = Some (st' # sts)" .
  then show ?case using found all by simp
qed

lemma get_ui_tree_elements_dump:
  assumes "\<forall>e\<in>set es. well_formed e \<and> one_line (el_resourceId e) \<and> one_line (el_className e)"
    and ex: "\<forall>e\<in>set es. exact_coordinates e"
  shows "get_ui_tree_elements (ui_dump es) =
           Returns (map entry_of (filter (\<lambda>e. el_text e \<noteq> []) es))"
proof -
  let ?nodes = "concat (map node_tag es) @ ''</hierarchy>''"
  from exec_all_get_ui_tree_nodes[OF assms(1)] obtain sts where
    sts: "exec_all False get_ui_tree_regex ?nodes = Some sts"
    and found: "list_all2 entry_found sts es" by blast
  have "exec_all False get_ui_tree_regex (''<hierarchy rotation=\"0\">'' @ ?nodes) = Some sts"
    by (rule exec_all_skip[OF search_get_ui_tree_header _ sts]) simp
  then have "exec_all False get_ui_tree_regex (ui_dump es) = Some sts"
    by (simp add: ui_dump_def)
  then show ?thesis
    using entries_of_found[OF found ex, of False] by (simp add: get_ui_tree_elements_def)
qed

section \<open>The claims\<close>

text \<open>
  Claim C4. A text query whose array of matches, collected in document order, has \<open>m > 0\<close>
  entries: an index \<open>0 \<le> i < m\<close> selects the entry \<open>i\<close> of the array, and an index
  \<open>i \<ge> m\<close> gives the structured out-of-range response that carries \<open>m\<close>, both in
  \<^verbatim>\<open>get_element_bounds\<close> and in \<^verbatim>\<open>tap_element\<close>.
\<close>

theorem index_selects_among_matches:
  assumes "truthy text" and "0 \<le> i"
  shows "(\<exists>ms. get_element_bounds_matches xml text resourceId = Returns ms \<and>
            (ms \<noteq> [] \<longrightarrow>
              (i < int (length ms) \<longrightarrow>
                 get_element_bounds xml text resourceId i =
                   Returns (Found (found_of ms i (ms ! nat i)))) \<and>
              (int (length ms) \<le> i \<longrightarrow>
                 get_element_bounds xml text resourceId i =
                   Returns (Index_out_of_range i (length ms))))) \<and>
         (\<not> truthy resourceId \<longrightarrow>
           (\<exists>ms. tap_element_matches xml text resourceId exact = Returns ms \<and>
            (ms \<noteq> [] \<longrightarrow>
              (i < int (length ms) \<longrightarrow>
                 tap_element xml text resourceId i exact =
                   Returns (tapped (tap_element_searchType text resourceId exact) ms i
                              (ms ! nat i))) \<and>
              (int (length ms) \<le> i \<longrightarrow>
                 tap_element xml text resourceId i exact =
                   Returns (Out_of_range i (length ms)
                              (tap_element_searchType text resourceId exact))))))"
proof (intro conjI impI)
  from get_element_bounds_matches_text[OF assms(1)]
  obtain ms where ms: "get_element_bounds_matches xml text resourceId = Returns ms" by blast
  show "\<exists>ms. get_element_bounds_matches xml text resourceId = Returns ms \<and>
            (ms \<noteq> [] \<longrightarrow>
              (i < int (length ms) \<longrightarrow>
                 get_element_bounds xml text resourceId i =
                   Returns (Found (found_of ms i (ms ! nat i)))) \<and>
              (int (length ms) \<le> i \<longrightarrow>
                 get_element_bounds xml text resourceId i =
                   Returns (Index_out_of_range i (length ms))))"
    using ms assms by (auto simp: get_element_bounds_def js_nth_in_range)
next
  assume r: "\<not> truthy resourceId"
  from tap_element_matches_text[OF assms(1) r]
  obtain ms where ms: "tap_element_matches xml text resourceId exact = Returns ms" by blast
  show "\<exists>ms. tap_element_matches xml text resourceId exact = Returns ms \<and>
            (ms \<noteq> [] \<longrightarrow>
              (i < int (length ms) \<longrightarrow>
                 tap_element xml text resourceId i exact =
                   Returns (tapped (tap_element_searchType text resourceId exact) ms i
                              (ms ! nat i))) \<and>
              (int (length ms) \<le> i \<longrightarrow>
                 tap_element xml text resourceId i exact =
                   Returns (Out_of_range i (length ms)
                              (tap_element_searchType text resourceId exact))))"
    using ms assms by (auto simp: tap_element_def js_nth_in_range Let_def)
qed

lemma two_ok_matches:
  "get_element_bounds_matches two_ok (Some ''OK'') None =
     Returns [\<lparr>x1 = Num 0, y1 = Num 0, x2 = Num 10, y2 = Num 10\<rparr>,
              \<lparr>x1 = Num 100, y1 = Num 200, x2 = Num 300, y2 = Num 250\<rparr>]"
  by code_simp

lemma two_ok_tap_matches:
  "tap_element_matches two_ok (Some ''OK'') None False =
     Returns [\<lparr>x1 = Num 0, y1 = Num 0, x2 = Num 10, y2 = Num 10\<rparr>,
              \<lparr>x1 = Num 100, y1 = Num 200, x2 = Num 300, y2 = Num 250\<rparr>]"
  by code_simp

theorem index_selects_among_matches_witness:
  "get_element_bounds two_ok (Some ''OK'') None 1 =
     Returns (Found \<lparr>matchCount = 2, index = 1, bounds_x = Num 100, bounds_y = Num 200,
       bounds_width = Num 200, bounds_height = Num 50,
       center_x = Num 200, center_y = Num 225\<rparr>) \<and>
   get_element_bounds two_ok (Some ''OK'') None 2 = Returns (Index_out_of_range 2 2) \<and>
   tap_element two_ok (Some ''OK'') None 2 False =
     Returns (Out_of_range 2 2 (By_text_containing ''OK''))"
proof -
  have t: "truthy (Some ''OK'')" "\<not> truthy None" by (simp_all add: truthy_def)
  have c: "center_of (Num 100) (Num 300) = Num 200" "center_of (Num 200) (Num 250) = Num 225"
    by (simp_all add: center_of_Num)
  from index_selects_among_matches[OF t(1), of 1 two_ok None False]
  have a: "get_element_bounds two_ok (Some ''OK'') None 1 =
     Returns (Found \<lparr>matchCount = 2, index = 1, bounds_x = Num 100, bounds_y = Num 200,
       bounds_width = Num 200, bounds_height = Num 50,
       center_x = Num 200, center_y = Num 225\<rparr>)"
    by (simp add: two_ok_matches found_of_def js_sub_Num c)
  from index_selects_among_matches[OF t(1), of 2 two_ok None False]
  have b: "get_element_bounds two_ok (Some ''OK'') None 2 = Returns (Index_out_of_range 2 2)"
    and d: "tap_element two_ok (Some ''OK'') None 2 False =
     Returns (Out_of_range 2 2 (By_text_containing ''OK''))"
    by (simp_all add: two_ok_matches two_ok_tap_matches t tap_element_searchType_def interpolate_def)
  from a b d show ?thesis by simp
qed

text \<open>
  Claim C10. A query with at least one match and a negative index: the guard
  \<^verbatim>\<open>index >= matches.length\<close> does not fire, \<^verbatim>\<open>matches[index]\<close> is
  \<^verbatim>\<open>undefined\<close>, and reading its field throws instead of returning a structured
  response, both in \<^verbatim>\<open>get_element_bounds\<close> and in \<^verbatim>\<open>tap_element\<close>.
\<close>

theorem negative_index_throws:
  assumes "i < 0" and "truthy text \<or> truthy resourceId"
  shows "(get_element_bounds_matches xml text resourceId = Returns ms \<and> ms \<noteq> [] \<longrightarrow>
            get_element_bounds xml text resourceId i = Throws TypeError) \<and>
         (tap_element_matches xml text resourceId exact = Returns ms' \<and> ms' \<noteq> [] \<longrightarrow>
            tap_element xml text resourceId i exact = Throws TypeError)"
  using assms
  by (auto simp: get_element_bounds_def tap_element_def js_nth_negative Let_def)

lemma ok_cancel_matches:
  "get_element_bounds_matches ok_cancel (Some ''ok'') None =
     Returns [\<lparr>x1 = Num 0, y1 = Num 0, x2 = Num 10, y2 = Num 10\<rparr>]"
  by code_simp

lemma ok_cancel_tap_matches:
  "tap_element_matches ok_cancel None (Some ''id/b'') False =
     Returns [\<lparr>x1 = Num 20, y1 = Num 20, x2 = Num 40, y2 = Num 40\<rparr>]"
  by code_simp

theorem negative_index_throws_witness:
  "get_element_bounds ok_cancel (Some ''ok'') None (- 1) = Throws TypeError \<and>
   tap_element ok_cancel None (Some ''id/b'') (- 1) False = Throws TypeError"
proof -
  have a: "get_element_bounds ok_cancel (Some ''ok'') None (- 1) = Throws TypeError"
    using negative_index_throws[of "- 1" "Some ''ok''" None ok_cancel
        "[\<lparr>x1 = Num 0, y1 = Num 0, x2 = Num 10, y2 = Num 10\<rparr>]" False]
    by (simp add: ok_cancel_matches truthy_def)
  have b: "tap_element ok_cancel None (Some ''id/b'') (- 1) False = Throws TypeError"
    using negative_index_throws[of "- 1" None "Some ''id/b''" ok_cancel _ False
        "[\<lparr>x1 = Num 20, y1 = Num 20, x2 = Num 40, y2 = Num 40\<rparr>]"]
    by (simp add: ok_cancel_tap_matches truthy_def)
  from a b show ?thesis by simp
qed

text \<open>
  Claim C3, as stated, fails: given the text \<^verbatim>\<open>OK\<close> and the resource id \<^verbatim>\<open>id/b\<close>
  of the other element, \<^verbatim>\<open>get_element_bounds\<close> and \<^verbatim>\<open>is_element_visible\<close> locate
  the element with the text, where the resource id alone locates the other one.
\<close>

theorem text_wins_in_get_element_bounds:
  "get_element_bounds ok_cancel (Some ''OK'') (Some ''id/b'') 0 =
     Returns (Found \<lparr>matchCount = 1, index = 0, bounds_x = Num 0, bounds_y = Num 0,
       bounds_width = Num 10, bounds_height = Num 10,
       center_x = Num 5, center_y = Num 5\<rparr>) \<and>
   get_element_bounds ok_cancel None (Some ''id/b'') 0 =
     Returns (Found \<lparr>matchCount = 1, index = 0, bounds_x = Num 20, bounds_y = Num 20,
       bounds_width = Num 20, bounds_height = Num 20,
       center_x = Num 30, center_y = Num 30\<rparr>) \<and>
   is_element_visible ok_cancel (Some ''OK'') (Some ''id/b'') =
     Returns (Visible True (Some \<lparr>vb_x = Num 0, vb_y = Num 0, vb_width = Num 10,
       vb_height = Num 10, vb_centerX = Num 5, vb_centerY = Num 5\<rparr>))"
  by code_simp

text \<open>
  Claim C3, amended. In \<^verbatim>\<open>tap_element\<close> a resource id decides the response and the
  text and the flag \<^verbatim>\<open>exact\<close> are ignored. In \<^verbatim>\<open>get_element_bounds\<close> it is the
  other way round: a text decides and the resource id is ignored. In
  \<^verbatim>\<open>is_element_visible\<close> a text that is found decides, whatever the resource id.
\<close>

theorem precedence_of_the_criteria:
  "(truthy resourceId \<longrightarrow>
      tap_element xml text resourceId i exact = tap_element xml text' resourceId i exact') \<and>
   (truthy text \<longrightarrow>
      get_element_bounds xml text resourceId i = get_element_bounds xml text resourceId' i) \<and>
   (truthy text \<and> is_element_visible xml text None = Returns (Visible True b) \<longrightarrow>
      is_element_visible xml text resourceId = Returns (Visible True b))"
proof (intro conjI impI)
  assume r: "truthy resourceId"
  have 1: "tap_element_matches xml text resourceId exact =
           tap_element_matches xml text' resourceId exact'"
    using r by (simp add: tap_element_matches_def tap_element_pattern_def)
  have 2: "tap_element_searchType text resourceId exact =
           tap_element_searchType text' resourceId exact'"
    using r by (simp add: tap_element_searchType_def)
  show "tap_element xml text resourceId i exact = tap_element xml text' resourceId i exact'"
    unfolding tap_element_def 1 2 using r by simp
next
  assume t: "truthy text"
  have 1: "get_element_bounds_matches xml text resourceId =
           get_element_bounds_matches xml text resourceId'"
    using t by (simp add: get_element_bounds_matches_def get_element_bounds_pattern_def)
  show "get_element_bounds xml text resourceId i = get_element_bounds xml text resourceId' i"
    unfolding get_element_bounds_def 1 using t by simp
next
  assume a: "truthy text \<and> is_element_visible xml text None = Returns (Visible True b)"
  then show "is_element_visible xml text resourceId = Returns (Visible True b)"
    by (auto simp: is_element_visible_def truthy_def Let_def
        split: option.splits if_splits)
qed

theorem precedence_of_the_criteria_witness:
  "tap_element ok_cancel (Some ''OK'') (Some ''id/b'') 0 True =
     Returns (Tapped (By_resource_id ''id/b'') (Num 30) (Num 30) None) \<and>
   get_element_bounds ok_cancel (Some ''OK'') (Some ''id/b'') 0 =
     get_element_bounds ok_cancel (Some ''OK'') None 0 \<and>
   is_element_visible ok_cancel (Some ''OK'') (Some ''id/b'') =
     Returns (Visible True (Some \<lparr>vb_x = Num 0, vb_y = Num 0, vb_width = Num 10,
       vb_height = Num 10, vb_centerX = Num 5, vb_centerY = Num 5\<rparr>))"
proof -
  have t: "truthy (Some ''OK'')" "truthy (Some ''id/b'')" by (simp_all add: truthy_def)
  have e: "tap_element ok_cancel None (Some ''id/b'') 0 False =
     Returns (Tapped (By_resource_id ''id/b'') (Num 30) (Num 30) None)"
    by code_simp
  have v: "is_element_visible ok_cancel (Some ''OK'') None =
     Returns (Visible True (Some \<lparr>vb_x = Num 0, vb_y = Num 0, vb_width = Num 10,
       vb_height = Num 10, vb_centerX = Num 5, vb_centerY = Num 5\<rparr>))"
    by code_simp
  from precedence_of_the_criteria[of "Some ''id/b''" ok_cancel "Some ''OK''" 0 True None False
      None]
  show ?thesis using t e v by simp
qed

text \<open>
  Claim C7: the code at a failing input. The resource id of the query goes into the
  pattern as it is, so its dots match any character, and the \<^verbatim>\<open>i\<close> flag makes the
  letters match in either case: the query \<^verbatim>\<open>com.app:id/btn\<close> locates an element whose
  resource id is \<^verbatim>\<open>comXapp:id/btn\<close>, and the query \<^verbatim>\<open>ID/A\<close> one whose resource id is
  \<^verbatim>\<open>id/a\<close>.
\<close>

theorem resource_id_is_a_pattern:
  "tap_element other_id None (Some ''com.app:id/btn'') 0 False =
     Returns (Tapped (By_resource_id ''com.app:id/btn'') (Num 5) (Num 5) None) \<and>
   get_element_bounds other_id None (Some ''com.app:id/btn'') 0 =
     Returns (Found \<lparr>matchCount = 1, index = 0, bounds_x = Num 0, bounds_y = Num 0,
       bounds_width = Num 10, bounds_height = Num 10,
       center_x = Num 5, center_y = Num 5\<rparr>) \<and>
   tap_element ok_cancel None (Some ''ID/A'') 0 False =
     Returns (Tapped (By_resource_id ''ID/A'') (Num 5) (Num 5) None)"
  by code_simp







text \<open>
  Claim C5: the code at a failing input. In a dump as uiautomator writes it, a match of
  the pattern starts at the \<^verbatim>\<open><\<close> of the tag, where the optional text group finds
  nothing, and the first \<^verbatim>\<open>[^>]*\<close> runs over the class up to the bounds: both groups
  stay undefined and the element gives no record. The label with the text \<^verbatim>\<open>Hi\<close>
  has the empty fingerprint, and so has the same label with its lower edge moved by one.
\<close>

theorem fingerprint_misses_moved_label:
  "extractUIFingerprint label_dump = Some [] \<and>
   extractUIFingerprint label_dump_moved = Some []"
  by code_simp






text \<open>
  Claim C8. Whenever \<^verbatim>\<open>get_element_bounds\<close> or \<^verbatim>\<open>tap_element\<close> locates an element, the
  selected match holds the numbers of four numerals \<open>(a, b, c, d)\<close>, read from
  \<^verbatim>\<open>bounds="[a,b][c,d]"\<close>, and as long as \<open>a + c\<close> and \<open>b + d\<close> are below \<open>2 ^ 53\<close> the
  centre that is reported, or tapped, is \<open>(round ((a + c) / 2), round ((b + d) / 2))\<close>, a
  half rounded upwards.
\<close>

theorem center_is_rounded_midpoint:
  "(get_element_bounds xml text resourceId i = Returns (Found f) \<longrightarrow>
      (\<exists>ms a b c d.
         get_element_bounds_matches xml text resourceId = Returns ms \<and>
         js_nth ms i = Some \<lparr>x1 = decimal_number a, y1 = decimal_number b,
                             x2 = decimal_number c, y2 = decimal_number d\<rparr> \<and>
         0 \<le> a \<and> 0 \<le> b \<and> 0 \<le> c \<and> 0 \<le> d \<and>
         (a + c < 2 ^ 53 \<and> b + d < 2 ^ 53 \<longrightarrow>
            bounds_x f = Num a \<and> bounds_y f = Num b \<and>
            bounds_width f = Num (c - a) \<and> bounds_height f = Num (d - b) \<and>
            center_x f = Num (round (rat_of_int (a + c) / 2)) \<and>
            center_y f = Num (round (rat_of_int (b + d) / 2))))) \<and>
   (tap_element xml text resourceId i exact = Returns (Tapped s cx cy l) \<longrightarrow>
      (\<exists>ms a b c d.
         tap_element_matches xml text resourceId exact = Returns ms \<and>
         js_nth ms i = Some \<lparr>x1 = decimal_number a, y1 = decimal_number b,
                             x2 = decimal_number c, y2 = decimal_number d\<rparr> \<and>
         0 \<le> a \<and> 0 \<le> b \<and> 0 \<le> c \<and> 0 \<le> d \<and>
         (a + c < 2 ^ 53 \<and> b + d < 2 ^ 53 \<longrightarrow>
            cx = Num (round (rat_of_int (a + c) / 2)) \<and>
            cy = Num (round (rat_of_int (b + d) / 2)))))"
proof (intro conjI impI)
  assume "get_element_bounds xml text resourceId i = Returns (Found f)"
  from get_element_bounds_FoundD[OF this]
  obtain ms mt where ms: "get_element_bounds_matches xml text resourceId = Returns ms"
    and mt: "js_nth ms i = Some mt" and f: "f = found_of ms i mt"
    by blast
  from get_element_bounds_matches_numbers[OF ms js_nth_Some[OF mt]]
  obtain a b c d where n: "0 \<le> a" "0 \<le> b" "0 \<le> c" "0 \<le> d"
    and r: "mt = \<lparr>x1 = decimal_number a, y1 = decimal_number b,
                  x2 = decimal_number c, y2 = decimal_number d\<rparr>"
    unfolding numbers_def by blast
  have "a + c < 2 ^ 53 \<and> b + d < 2 ^ 53 \<longrightarrow>
            bounds_x f = Num a \<and> bounds_y f = Num b \<and>
            bounds_width f = Num (c - a) \<and> bounds_height f = Num (d - b) \<and>
            center_x f = Num (round (rat_of_int (a + c) / 2)) \<and>
            center_y f = Num (round (rat_of_int (b + d) / 2))"
  proof
    assume "a + c < 2 ^ 53 \<and> b + d < 2 ^ 53"
    then have "f = \<lparr>matchCount = length ms, index = i, bounds_x = Num a, bounds_y = Num b,
          bounds_width = Num (c - a), bounds_height = Num (d - b),
          center_x = Num (round (rat_of_int (a + c) / 2)),
          center_y = Num (round (rat_of_int (b + d) / 2))\<rparr>"
      unfolding f r using n by (intro found_of_exact) simp_all
    then show "bounds_x f = Num a \<and> bounds_y f = Num b \<and>
            bounds_width f = Num (c - a) \<and> bounds_height f = Num (d - b) \<and>
            center_x f = Num (round (rat_of_int (a + c) / 2)) \<and>
            center_y f = Num (round (rat_of_int (b + d) / 2))"
      by simp
  qed
  with ms mt r n show "\<exists>ms a b c d.
         get_element_bounds_matches xml text resourceId = Returns ms \<and>
         js_nth ms i = Some \<lparr>x1 = decimal_number a, y1 = decimal_number b,
                             x2 = decimal_number c, y2 = decimal_number d\<rparr> \<and>
         0 \<le> a \<and> 0 \<le> b \<and> 0 \<le> c \<and> 0 \<le> d \<and>
         (a + c < 2 ^ 53 \<and> b + d < 2 ^ 53 \<longrightarrow>
            bounds_x f = Num a \<and> bounds_y f = Num b \<and>
            bounds_width f = Num (c - a) \<and> bounds_height f = Num (d - b) \<and>
            center_x f = Num (round (rat_of_int (a + c) / 2)) \<and>
            center_y f = Num (round (rat_of_int (b + d) / 2)))"
    by blast
next
  assume "tap_element xml text resourceId i exact = Returns (Tapped s cx cy l)"
  from tap_element_TappedD[OF this]
  obtain ms mt where ms: "tap_element_matches xml text resourceId exact = Returns ms"
    and mt: "js_nth ms i = Some mt"
    and f: "Tapped s cx cy l = tapped (tap_element_searchType text resourceId exact) ms i mt"
    by blast
  from tap_element_matches_numbers[OF ms js_nth_Some[OF mt]]
  obtain a b c d where n: "0 \<le> a" "0 \<le> b" "0 \<le> c" "0 \<le> d"
    and r: "mt = \<lparr>x1 = decimal_number a, y1 = decimal_number b,
                  x2 = decimal_number c, y2 = decimal_number d\<rparr>"
    unfolding numbers_def by blast
  have "a + c < 2 ^ 53 \<and> b + d < 2 ^ 53 \<longrightarrow>
            cx = Num (round (rat_of_int (a + c) / 2)) \<and>
            cy = Num (round (rat_of_int (b + d) / 2))"
  proof
    assume "a + c < 2 ^ 53 \<and> b + d < 2 ^ 53"
    then have "tapped (tap_element_searchType text resourceId exact) ms i mt =
        Tapped (tap_element_searchType text resourceId exact)
          (Num (round (rat_of_int (a + c) / 2))) (Num (round (rat_of_int (b + d) / 2)))
          (if length ms > 1 then Some (i + 1, length ms) else None)"
      unfolding r using n by (intro tapped_exact) simp_all
    with f show "cx = Num (round (rat_of_int (a + c) / 2)) \<and>
            cy = Num (round (rat_of_int (b + d) / 2))"
      by simp
  qed
  with ms mt r n show "\<exists>ms a b c d.
         tap_element_matches xml text resourceId exact = Returns ms \<and>
         js_nth ms i = Some \<lparr>x1 = decimal_number a, y1 = decimal_number b,
                             x2 = decimal_number c, y2 = decimal_number d\<rparr> \<and>
         0 \<le> a \<and> 0 \<le> b \<and> 0 \<le> c \<and> 0 \<le> d \<and>
         (a + c < 2 ^ 53 \<and> b + d < 2 ^ 53 \<longrightarrow>
            cx = Num (round (rat_of_int (a + c) / 2)) \<and>
            cy = Num (round (rat_of_int (b + d) / 2)))"
    by blast
qed

lemma submit_dump_located:
  "get_element_bounds submit_dump (Some ''Submit'') None 0 =
     Returns (Found \<lparr>matchCount = 1, index = 0, bounds_x = Num 100, bounds_y = Num 200,
       bounds_width = Num 200, bounds_height = Num 50,
       center_x = Num 200, center_y = Num 225\<rparr>)"
  by code_simp

lemma submit_dump_matches:
  "get_element_bounds_matches submit_dump (Some ''Submit'') None =
     Returns [\<lparr>x1 = Num 100, y1 = Num 200, x2 = Num 300, y2 = Num 250\<rparr>]"
  by code_simp

theorem center_is_rounded_midpoint_witness:
  "get_element_bounds submit_dump (Some ''Submit'') None 0 =
     Returns (Found \<lparr>matchCount = 1, index = 0, bounds_x = Num 100, bounds_y = Num 200,
       bounds_width = Num 200, bounds_height = Num 50,
       center_x = Num 200, center_y = Num 225\<rparr>) \<and>
   (100 :: int) + 300 < 2 ^ 53 \<and> (200 :: int) + 250 < 2 ^ 53 \<and>
   (200 :: int) = round (rat_of_int (100 + 300) / 2) \<and>
   (225 :: int) = round (rat_of_int (200 + 250) / 2)"
proof -
  let ?f = "\<lparr>matchCount = 1, index = 0, bounds_x = Num 100, bounds_y = Num 200,
       bounds_width = Num 200, bounds_height = Num 50,
       center_x = Num 200, center_y = Num (225 :: int)\<rparr>"
  from center_is_rounded_midpoint[THEN conjunct1, rule_format, OF submit_dump_located]
  obtain ms a b c d
    where ms: "get_element_bounds_matches submit_dump (Some ''Submit'') None = Returns ms"
    and mt: "js_nth ms 0 = Some \<lparr>x1 = decimal_number a, y1 = decimal_number b,
                                  x2 = decimal_number c, y2 = decimal_number d\<rparr>"
    and n: "0 \<le> a" "0 \<le> b" "0 \<le> c" "0 \<le> d"
    and centre: "a + c < 2 ^ 53 \<and> b + d < 2 ^ 53 \<longrightarrow>
       bounds_x ?f = Num a \<and> bounds_y ?f = Num b \<and>
       bounds_width ?f = Num (c - a) \<and> bounds_height ?f = Num (d - b) \<and>
       center_x ?f = Num (round (rat_of_int (a + c) / 2)) \<and>
       center_y ?f = Num (round (rat_of_int (b + d) / 2))"
    by blast
  from ms have "ms = [\<lparr>x1 = Num 100, y1 = Num 200, x2 = Num 300, y2 = Num 250\<rparr>]"
    by (simp add: submit_dump_matches)
  with mt have "decimal_number a = Num 100" "decimal_number b = Num 200"
    "decimal_number c = Num 300" "decimal_number d = Num 250"
    by (simp_all add: js_nth_def)
  with n have "a = 100" "b = 200" "c = 300" "d = 250"
    by (auto dest: decimal_number_NumD)
  with centre have "200 = round (rat_of_int (100 + 300) / 2)"
    "225 = round (rat_of_int (200 + 250) / 2)"
    by simp_all
  then show ?thesis using submit_dump_located by simp
qed

text \<open>
  Claim C8, as stated, fails beyond \<open>2 ^ 53\<close>: each of the coordinates 9007199254740990 and
  9007199254740991 is a double, but their sum 18014398509481981 is not; the sum of the
  tools is the nearest double 18014398509481980, and the centre that is reported, and
  tapped, is 9007199254740990, where the midpoint 9007199254740990.5 rounds to
  9007199254740991.
\<close>

theorem center_of_far_coordinates:
  "get_element_bounds far_dump (Some ''Submit'') None 0 =
     Returns (Found \<lparr>matchCount = 1, index = 0,
       bounds_x = Num 9007199254740990, bounds_y = Num 0,
       bounds_width = Num 1, bounds_height = Num 3,
       center_x = Num 9007199254740990, center_y = Num 2\<rparr>) \<and>
   tap_element far_dump (Some ''Submit'') None 0 False =
     Returns (Tapped (By_text_containing ''Submit'')
       (Num 9007199254740990) (Num 2) None) \<and>
   round (rat_of_int (9007199254740990 + 9007199254740991) / 2) = (9007199254740991 :: int)"
proof -
  have "round (rat_of_int (9007199254740990 + 9007199254740991) / 2) = (9007199254740991 :: int)"
    unfolding round_half by simp
  moreover have "get_element_bounds far_dump (Some ''Submit'') None 0 =
     Returns (Found \<lparr>matchCount = 1, index = 0,
       bounds_x = Num 9007199254740990, bounds_y = Num 0,
       bounds_width = Num 1, bounds_height = Num 3,
       center_x = Num 9007199254740990, center_y = Num 2\<rparr>)"
    by code_simp
  moreover have "tap_element far_dump (Some ''Submit'') None 0 False =
     Returns (Tapped (By_text_containing ''Submit'')
       (Num 9007199254740990) (Num 2) None)"
    by code_simp
  ultimately show ?thesis by simp
qed

text \<open>
  Claim C1, as stated, fails: a dump with one well-formed bounds attribute and no text
  attribute in front of it has one occurrence of the bounds, and neither the loop of
  \<^verbatim>\<open>get_all_text\<close>, even with \<^verbatim>\<open>includeEmpty\<close>, nor that of \<^verbatim>\<open>get_ui_tree\<close>
  recognises an element.
\<close>

theorem bounds_without_text_not_recognised:
  "bounds_occurrences bare_bounds =
     Some [\<lparr>x1 = Num 0, y1 = Num 0, x2 = Num 10, y2 = Num 20\<rparr>] \<and>
   get_all_text_texts True bare_bounds = Returns [] \<and>
   get_ui_tree_elements bare_bounds = Returns []"
  by code_simp

text \<open>
  Claim C1, amended. For a dump of \<open>k\<close> elements as uiautomator writes them, each tag with
  its text attribute in front of its bounds and with coordinates whose sums in each
  direction are at most \<open>2 ^ 53\<close>, the loop of \<^verbatim>\<open>get_all_text\<close> with
  \<^verbatim>\<open>includeEmpty\<close> recognises exactly \<open>k\<close> entries, in document order, each with the
  text of its element and the centre of the bounds of its element; without
  \<^verbatim>\<open>includeEmpty\<close> it leaves out the elements whose text is empty. So does the loop of
  \<^verbatim>\<open>get_ui_tree\<close>, when no resource id and no class name has a line end in it.
\<close>

theorem parsers_recognise_every_element:
  assumes "\<forall>e\<in>set es. well_formed e" and "\<forall>e\<in>set es. exact_coordinates e"
  shows "get_all_text_texts includeEmpty (ui_dump es) =
           Returns (map entry_of (filter (\<lambda>e. el_text e \<noteq> [] \<or> includeEmpty) es)) \<and>
         ((\<forall>e\<in>set es. one_line (el_resourceId e) \<and> one_line (el_className e)) \<longrightarrow>
          get_ui_tree_elements (ui_dump es) =
            Returns (map entry_of (filter (\<lambda>e. el_text e \<noteq> []) es)))"
proof (intro conjI impI)
  let ?nodes = "concat (map node_tag es) @ ''</hierarchy>''"
  from exec_all_get_all_text_nodes[OF assms(1)] obtain sts where
    sts: "exec_all False get_all_text_regex ?nodes = Some sts"
    and found: "list_all2 entry_found sts es" by blast
  have "exec_all False get_all_text_regex (''<hierarchy rotation=\"0\">'' @ ?nodes) = Some sts"
    by (rule exec_all_skip[OF search_get_all_text_header _ sts]) simp
  then have "exec_all False get_all_text_regex (ui_dump es) = Some sts"
    by (simp add: ui_dump_def)
  then show "get_all_text_texts includeEmpty (ui_dump es) =
           Returns (map entry_of (filter (\<lambda>e. el_text e \<noteq> [] \<or> includeEmpty) es))"
    using entries_of_found[OF found assms(2), of includeEmpty]
    by (simp add: get_all_text_texts_def)
next
  assume "\<forall>e\<in>set es. one_line (el_resourceId e) \<and> one_line (el_className e)"
  with assms(1)
  have "\<forall>e\<in>set es. well_formed e \<and> one_line (el_resourceId e) \<and> one_line (el_className e)"
    by simp
  then show "get_ui_tree_elements (ui_dump es) =
            Returns (map entry_of (filter (\<lambda>e. el_text e \<noteq> []) es))"
    using assms(2) by (rule get_ui_tree_elements_dump)
qed


theorem parsers_recognise_every_element_witness:
  "get_all_text_texts True (ui_dump login_screen) =
     Returns [\<lparr>te_text = ''Login'', te_centerX = Num 200, te_centerY = Num 225\<rparr>,
              \<lparr>te_text = ''LOG'', te_centerX = Num 540, te_centerY = Num 351\<rparr>] \<and>
   get_ui_tree_elements (ui_dump login_screen) =
     Returns [\<lparr>te_text = ''Login'', te_centerX = Num 200, te_centerY = Num 225\<rparr>,
              \<lparr>te_text = ''LOG'', te_centerX = Num 540, te_centerY = Num 351\<rparr>]"
proof -
  have wf: "\<forall>e\<in>set login_screen. well_formed e"
    by (simp add: login_screen_def well_formed_def attribute_value_def)
  have ol: "\<forall>e\<in>set login_screen. one_line (el_resourceId e) \<and> one_line (el_className e)"
    by (simp add: login_screen_def one_line_def)
  have ex: "\<forall>e\<in>set login_screen. exact_coordinates e"
    by (simp add: login_screen_def exact_coordinates_def)
  have r: "round ((701 :: rat) / 2) = 351" using round_half[of 701] by simp
  from parsers_recognise_every_element[OF wf ex, of True] ol
  show ?thesis by (simp add: login_screen_def entry_of_def r)
qed

text \<open>
  Claim C6, amended. The query text has no double quote; the dump is one of elements as
  uiautomator writes them, whose attribute values have no double quote and no \<^verbatim>\<open>>\<close>
  and do not end in \<^verbatim>\<open>text=\<close>, and whose coordinates have sums of at most \<open>2 ^ 53\<close>
  in each direction. Then the matches of \<^verbatim>\<open>tap_element\<close> with
  \<^verbatim>\<open>exact\<close> are, in document order, the bounds of exactly those elements whose text is
  equal to the query text up to the case of the letters.
\<close>

theorem exact_text_matches_equal_texts:
  assumes "\<forall>e\<in>set es. plain_values e" and "q \<noteq> []" and "no_quote q"
    and "\<forall>e\<in>set es. exact_coordinates e"
  shows "tap_element_matches (ui_dump es) (Some q) None True =
           Returns (map rect_of_element (filter (\<lambda>e. same_text q (el_text e)) es))"
proof -
  let ?p = "text_attr (exact_tail q)"
  let ?nodes = "concat (map node_tag es) @ ''</hierarchy>''"
  from exec_all_exact_nodes[OF assms(1,3)] obtain sts where
    sts: "exec_all True ?p ?nodes = Some sts"
    and found: "list_all2 (\<lambda>st e. has_bounds 1 e st) sts
                  (filter (\<lambda>e. same_text q (el_text e)) es)" by blast
  have "exec_all True ?p (''<hierarchy rotation=\"0\">'' @ ?nodes) = Some sts"
    by (rule exec_all_skip[OF search_text_attr_header _ sts]) simp
  then have "exec_all True ?p (ui_dump es) = Some sts"
    by (simp add: ui_dump_def)
  then show ?thesis
    using rects_of_has_bounds[OF found] assms(4)
    by (simp add: tap_element_matches_def tap_element_pattern_exact)
qed


theorem exact_text_matches_equal_texts_witness:
  "tap_element_matches (ui_dump login_screen) (Some ''Log'') None True =
     Returns [\<lparr>x1 = Num 0, y1 = Num 300, x2 = Num 1080, y2 = Num 401\<rparr>]"
proof -
  have pv: "\<forall>e\<in>set login_screen. plain_values e"
    by code_simp
  have q: "''Log'' \<noteq> []" "no_quote ''Log''" by (simp_all add: no_quote_def)
  have s: "same_text ''Log'' ''LOG''" "\<not> same_text ''Log'' ''Login''"
    by code_simp+
  have ex: "\<forall>e\<in>set login_screen. exact_coordinates e"
    by (simp add: login_screen_def exact_coordinates_def)
  from exact_text_matches_equal_texts[OF pv q ex]
  show ?thesis using s by (simp add: login_screen_def rect_of_element_def)
qed

text \<open>
  Claim C6, as stated, fails: the only element of the dump has the text \<^verbatim>\<open>text=\<close>, and
  the exact query for the text \<^verbatim>\<open> resource-id=\<close>, which is a different text, locates
  and taps it. The match starts at the \<^verbatim>\<open>text=\<close> inside the value and takes the quote
  that closes the value for the quote that opens it.
\<close>

theorem exact_text_matches_other_text:
  "map el_text odd_text = [''text=''] \<and>
   \<not> same_text '' resource-id='' ''text='' \<and>
   tap_element (ui_dump odd_text) (Some '' resource-id='') None 0 True =
     Returns (Tapped (By_text '' resource-id='') (Num 5) (Num 5) None)"
  by code_simp

end
